theory Spec2Isabelle
  imports Main "HOL-Library.Word"
begin

section \<open>The condition stack of the script debugger (src/debugger/see.h)\<close>

text \<open>
  \<^verbatim>\<open>ConditionStack\<close> keeps two \<^verbatim>\<open>uint32_t\<close> members: the size of the implied stack
  and the position of its first false element, \<^verbatim>\<open>NO_FALSE\<close> (the largest
  \<^verbatim>\<open>uint32_t\<close>) standing for "no false element". Both are 32-bit words here, so
  that \<^verbatim>\<open>++m_stack_size\<close> and \<^verbatim>\<open>m_stack_size - 1\<close> wrap as they do in C++.
\<close>

record ConditionStack =
  m_stack_size :: "32 word"
  m_first_false_pos :: "32 word"

definition NO_FALSE :: "32 word" where
  "NO_FALSE = - 1"

text \<open>A freshly constructed object: the default member initialisers.\<close>

definition cs_init :: ConditionStack where
  "cs_init = \<lparr>m_stack_size = 0, m_first_false_pos = NO_FALSE\<rparr>"

text \<open>
  \<^verbatim>\<open>size()\<close> returns a \<^verbatim>\<open>size_t\<close> and \<^verbatim>\<open>at(size_t idx)\<close> compares the 32-bit
  position with a \<^verbatim>\<open>size_t\<close>. The conversion of an unsigned 32-bit value to
  \<^verbatim>\<open>size_t\<close> keeps its value, so both are read as natural numbers.
\<close>

definition cs_size :: "ConditionStack \<Rightarrow> nat" where
  "cs_size c = unat (m_stack_size c)"

definition cs_at :: "ConditionStack \<Rightarrow> nat \<Rightarrow> bool" where
  "cs_at c idx = (unat (m_first_false_pos c) > idx)"

definition cs_empty :: "ConditionStack \<Rightarrow> bool" where
  "cs_empty c = (m_stack_size c = 0)"

definition cs_all_true :: "ConditionStack \<Rightarrow> bool" where
  "cs_all_true c = (m_first_false_pos c = NO_FALSE)"

definition cs_push_back :: "bool \<Rightarrow> ConditionStack \<Rightarrow> ConditionStack" where
  "cs_push_back f c =
     (let c1 = (if m_first_false_pos c = NO_FALSE \<and> \<not> f
                then c\<lparr>m_first_false_pos := m_stack_size c\<rparr> else c)
      in c1\<lparr>m_stack_size := m_stack_size c1 + 1\<rparr>)"

text \<open>
  \<^verbatim>\<open>pop_back\<close> and \<^verbatim>\<open>toggle_top\<close> start with \<^verbatim>\<open>assert(m_stack_size > 0)\<close>;
  the failed assertion is the result \<open>None\<close>.
\<close>

definition cs_pop_back :: "ConditionStack \<Rightarrow> ConditionStack option" where
  "cs_pop_back c =
     (if \<not> m_stack_size c > 0 then None
      else let c1 = c\<lparr>m_stack_size := m_stack_size c - 1\<rparr>
           in Some (if m_first_false_pos c1 = m_stack_size c1
                    then c1\<lparr>m_first_false_pos := NO_FALSE\<rparr> else c1))"

definition cs_toggle_top :: "ConditionStack \<Rightarrow> ConditionStack option" where
  "cs_toggle_top c =
     (if \<not> m_stack_size c > 0 then None
      else if m_first_false_pos c = NO_FALSE
           then Some (c\<lparr>m_first_false_pos := m_stack_size c - 1\<rparr>)
      else if m_first_false_pos c = m_stack_size c - 1
           then Some (c\<lparr>m_first_false_pos := NO_FALSE\<rparr>)
      else Some c)"

text \<open>A sequence of calls made on one object.\<close>

datatype cs_op = Push_back bool | Pop_back | Toggle_top

fun cs_apply :: "cs_op \<Rightarrow> ConditionStack \<Rightarrow> ConditionStack option" where
  "cs_apply (Push_back f) c = Some (cs_push_back f c)"
| "cs_apply Pop_back c = cs_pop_back c"
| "cs_apply Toggle_top c = cs_toggle_top c"

fun cs_run :: "cs_op list \<Rightarrow> ConditionStack \<Rightarrow> ConditionStack option" where
  "cs_run [] c = Some c"
| "cs_run (x # xs) c = (case cs_apply x c of None \<Rightarrow> None | Some c' \<Rightarrow> cs_run xs c')"

subsection \<open>The naive stack the class comment describes\<close>

text \<open>
  "Conceptually it acts like a vector of booleans": the reference the optimised
  class is compared with. The top of the stack is the last element; popping or
  toggling an empty vector is not allowed (\<open>None\<close>).
\<close>

fun naive_apply :: "cs_op \<Rightarrow> bool list \<Rightarrow> bool list option" where
  "naive_apply (Push_back f) v = Some (v @ [f])"
| "naive_apply Pop_back v = (if v = [] then None else Some (butlast v))"
| "naive_apply Toggle_top v = (if v = [] then None else Some (butlast v @ [\<not> last v]))"

fun naive_run :: "cs_op list \<Rightarrow> bool list \<Rightarrow> bool list option" where
  "naive_run [] v = Some v"
| "naive_run (x # xs) v = (case naive_apply x v of None \<Rightarrow> None | Some v' \<Rightarrow> naive_run xs v')"

definition naive_all_true :: "bool list \<Rightarrow> bool" where
  "naive_all_true v = list_all (\<lambda>b. b) v"

text \<open>
  The vector accepts the run from \<open>v\<close> and holds fewer than \<open>k\<close> elements before and
  after each of its calls.
\<close>

fun stays_below :: "nat \<Rightarrow> cs_op list \<Rightarrow> bool list \<Rightarrow> bool" where
  "stays_below k [] v = (length v < k)"
| "stays_below k (x # xs) v =
     (length v < k \<and> (case naive_apply x v of None \<Rightarrow> False | Some v' \<Rightarrow> stays_below k xs v'))"

text \<open>The abstraction relation between an object and the vector it stands for.\<close>

definition cs_rel :: "ConditionStack \<Rightarrow> bool list \<Rightarrow> bool" where
  "cs_rel c v \<longleftrightarrow>
     length v < 2 ^ 32 \<and>
     m_stack_size c = of_nat (length v) \<and>
     m_first_false_pos c =
       (if naive_all_true v then NO_FALSE else of_nat (length (takeWhile (\<lambda>b. b) v)))"

section \<open>The expression language (src/tinyparser.h)\<close>

subsection \<open>Tokens\<close>

datatype token_type =
    tok_undef
  | tok_symbol
  | tok_number
  | tok_equal
  | tok_lparen
  | tok_rparen
  | tok_string
  | tok_mul
  | tok_plus
  | tok_minus
  | tok_div
  | tok_concat
  | tok_comma
  | tok_hex
  | tok_bin
  | tok_consumable
  | tok_ws

text \<open>
  A \<^verbatim>\<open>token_t\<close> has a kind, a text (\<^verbatim>\<open>char* value\<close>, \<open>None\<close> for \<^verbatim>\<open>nullptr\<close>) and
  a \<^verbatim>\<open>next\<close> pointer. A chain of tokens is a list: a \<^verbatim>\<open>token_t*\<close> is the list of the
  tokens from there on, \<^verbatim>\<open>nullptr\<close> is \<open>[]\<close> and \<^verbatim>\<open>->next\<close> is the tail of the list.
\<close>

record token_t =
  token :: token_type
  tvalue :: "string option"

subsection \<open>What a call can do\<close>

text \<open>
  A function of the source returns, throws a C++ exception, or runs into
  undefined behaviour (a read through a null pointer, a second \<^verbatim>\<open>delete\<close> of the
  same token, a \<^verbatim>\<open>std::string\<close> built from a null \<^verbatim>\<open>char*\<close>). The grammar rules are
  mutually recursive and are given a recursion budget; \<open>Out_of_fuel\<close> says that
  the budget was too small and is not a behaviour of the program.
\<close>

datatype exn =
    Tokenization_failure char
  | Treeify_failure "string option"
  | List_eval_failure
  | Substr_out_of_range

datatype fault = Null_dereference | Double_delete | Null_string

datatype 'a result = Returns 'a | Throws exn | Undefined fault | Out_of_fuel

definition and_then :: "'a result \<Rightarrow> ('a \<Rightarrow> 'b result) \<Rightarrow> 'b result" where
  "and_then m f =
     (case m of Returns x \<Rightarrow> f x | Throws e \<Rightarrow> Throws e
      | Undefined u \<Rightarrow> Undefined u | Out_of_fuel \<Rightarrow> Out_of_fuel)"

subsection \<open>The lexer\<close>

definition in_range :: "char \<Rightarrow> char \<Rightarrow> char \<Rightarrow> bool" where
  "in_range lo hi c \<longleftrightarrow> (of_char lo :: nat) \<le> of_char c \<and> (of_char c :: nat) \<le> of_char hi"

definition determine_token :: "char \<Rightarrow> char \<Rightarrow> token_type \<Rightarrow> token_type \<Rightarrow> token_type" where
  "determine_token c p restrict_type current =
     (if c = CHR ''|'' then (if p = CHR ''|'' then tok_concat else tok_consumable)
      else if c = CHR ''+'' then tok_plus
      else if c = CHR ''-'' then tok_minus
      else if c = CHR ''*'' then tok_mul
      else if c = CHR ''/'' then tok_div
      else if c = CHR '','' then tok_comma
      else if c = CHR ''='' then tok_equal
      else if c = CHR '')'' then tok_rparen
      else if c = CHR '' '' \<or> c = CHR 0x09 \<or> c = CHR 0x0A then tok_ws
      else if restrict_type \<noteq> tok_undef then
        (if restrict_type = tok_hex \<and>
            (in_range CHR ''0'' CHR ''9'' c \<or> in_range CHR ''a'' CHR ''f'' c \<or>
             in_range CHR ''A'' CHR ''F'' c) then tok_number
         else if restrict_type = tok_bin \<and> (c = CHR ''0'' \<or> c = CHR ''1'') then tok_number
         else tok_undef)
      else if c = CHR ''x'' \<and> p = CHR ''0'' \<and> current = tok_number then tok_hex
      else if c = CHR ''b'' \<and> p = CHR ''0'' \<and> current = tok_number then tok_bin
      else if in_range CHR ''0'' CHR ''9'' c
        then (if current = tok_symbol then tok_symbol else tok_number)
      else if current = tok_number \<and>
              (in_range CHR ''a'' CHR ''f'' c \<or> in_range CHR ''A'' CHR ''F'' c) then tok_number
      else if in_range CHR ''a'' CHR ''z'' c \<or> in_range CHR ''A'' CHR ''Z'' c \<or> c = CHR ''_''
        then tok_symbol
      else if c = CHR 0x22 then tok_string
      else if c = CHR ''('' then tok_lparen
      else tok_undef)"

text \<open>
  The local variables of \<^verbatim>\<open>tokenize\<close>. \<open>toks\<close> is the chain from \<^verbatim>\<open>head\<close>, and
  \<^verbatim>\<open>tail\<close> is its last token (\<^verbatim>\<open>nullptr\<close> when the chain is empty): at the head of the
  loop \<^verbatim>\<open>tail\<close> is the token created last. \<^verbatim>\<open>prev\<close> is assigned only where a symbol,
  number, string or consumable token is created, to the tail of that moment; it is
  read only where the tail is deleted, which the code does only for a tail of kind
  consumable, a token created that way. So where \<^verbatim>\<open>prev\<close> is read it points to the
  token before the tail (or is null when the tail is the head), and
  \<^verbatim>\<open>delete tail; if (head == tail) head = prev; tail = prev;\<close> removes the last token
  of the chain. The deletion leaves \<^verbatim>\<open>next\<close> of the new tail pointing to the deleted
  token until the next token is linked behind it; \<open>tail_next_deleted\<close> records
  that, because \<^verbatim>\<open>~token_t\<close> deletes \<^verbatim>\<open>next\<close>.
\<close>

record lexer =
  toks :: "token_t list"
  tail_next_deleted :: bool
  is_open :: bool
  finalized :: bool
  finding :: char
  restrict_type :: token_type
  token_start :: nat

definition lexer_init :: lexer where
  "lexer_init = \<lparr>toks = [], tail_next_deleted = False, is_open = False, finalized = True,
     finding = CHR 0x00, restrict_type = tok_undef, token_start = 0\<rparr>"

text \<open>\<^verbatim>\<open>tail ? tail->token : tok_undef\<close>\<close>

definition current_token :: "lexer \<Rightarrow> token_type" where
  "current_token L = (if toks L = [] then tok_undef else token (last (toks L)))"

text \<open>\<^verbatim>\<open>strndup(&s[from], n)\<close>, for a string without an inner NUL.\<close>

definition strndup :: "string \<Rightarrow> nat \<Rightarrow> nat \<Rightarrow> string" where
  "strndup s from n = take n (drop from s)"

definition set_tail :: "(token_t \<Rightarrow> token_t) \<Rightarrow> lexer \<Rightarrow> lexer" where
  "set_tail f L = L\<lparr>toks := butlast (toks L) @ [f (last (toks L))]\<rparr>"

text \<open>\<^verbatim>\<open>delete tail; if (head == tail) head = prev; tail = prev;\<close>\<close>

definition delete_tail :: "lexer \<Rightarrow> lexer result" where
  "delete_tail L =
     (if toks L = [] then Undefined Null_dereference
      else if tail_next_deleted L then Undefined Double_delete
      else Returns (L\<lparr>toks := butlast (toks L), tail_next_deleted := True\<rparr>))"

text \<open>\<^verbatim>\<open>tail = new token_t(token, tail); if (!head) head = tail;\<close>\<close>

definition new_token :: "token_type \<Rightarrow> string option \<Rightarrow> lexer \<Rightarrow> lexer" where
  "new_token tk v L =
     L\<lparr>toks := toks L @ [\<lparr>token = tk, tvalue = v\<rparr>], tail_next_deleted := False\<rparr>"

text \<open>Lines 123 to 127: a second pending marker.\<close>

definition check_pending :: "char \<Rightarrow> token_type \<Rightarrow> lexer \<Rightarrow> lexer result" where
  "check_pending c tk L =
     (if tk = tok_consumable then
        (if toks L = [] then Undefined Null_dereference
         else if token (last (toks L)) = tok_consumable then Throws (Tokenization_failure c)
         else Returns L)
      else Returns L)"

text \<open>Line 128: the \<^verbatim>\<open>0\<close> before \<^verbatim>\<open>x\<close> or \<^verbatim>\<open>b\<close> becomes a consumable.\<close>

definition mark_prefix :: "token_type \<Rightarrow> lexer \<Rightarrow> lexer result" where
  "mark_prefix tk L =
     (if tk = tok_hex \<or> tk = tok_bin then
        (if toks L = [] then Undefined Null_dereference
         else if token (last (toks L)) = tok_number
           then Returns (set_tail (\<lambda>t. t\<lparr>token := tok_consumable\<rparr>) L)
         else Returns L)
      else Returns L)"

text \<open>Lines 130 to 133.\<close>

definition close_on_ws :: "token_type \<Rightarrow> lexer \<Rightarrow> lexer" where
  "close_on_ws tk L =
     (if tk = tok_ws then L\<lparr>is_open := False, restrict_type := tok_undef\<rparr> else L)"

text \<open>Lines 135 to 137.\<close>

definition stay_open :: "token_type \<Rightarrow> lexer \<Rightarrow> lexer result" where
  "stay_open tk L =
     (if is_open L then
        (if toks L = [] then Undefined Null_dereference
         else Returns (L\<lparr>is_open := (tk = token (last (toks L)))\<rparr>))
      else Returns L)"

text \<open>Lines 139 to 149: drop a consumed prefix marker, or give the tail its text.\<close>

definition close_tail :: "string \<Rightarrow> nat \<Rightarrow> token_type \<Rightarrow> lexer \<Rightarrow> lexer result" where
  "close_tail s i tk L =
     (if toks L \<noteq> [] \<and> token (last (toks L)) = tok_consumable then
        (if tk = tok_hex \<or> tk = tok_bin
         then delete_tail (L\<lparr>restrict_type := tk\<rparr>)
         else Returns L)
      else if \<not> finalized L then
        (if toks L = [] then Undefined Null_dereference
         else Returns
           ((set_tail (\<lambda>t. t\<lparr>tvalue := Some (strndup s (token_start L) (i - token_start L))\<rparr>) L)
              \<lparr>finalized := True\<rparr>))
      else Returns L)"

text \<open>Lines 150 to 189: the \<^verbatim>\<open>switch\<close>.\<close>

definition starts_run :: "token_type \<Rightarrow> bool" where
  "starts_run tk \<longleftrightarrow> tk = tok_string \<or> tk = tok_symbol \<or> tk = tok_number \<or> tk = tok_consumable"

definition emit :: "nat \<Rightarrow> char \<Rightarrow> token_type \<Rightarrow> lexer \<Rightarrow> lexer result" where
  "emit i c tk L =
     (if starts_run tk then
        Returns ((new_token tk None
                    (L\<lparr>finding := (if tk = tok_string then CHR 0x22 else finding L),
                       finalized := False, token_start := i\<rparr>))
                 \<lparr>is_open := True\<rparr>)
      else if tk = tok_ws then Returns L
      else if tk = tok_undef then Throws (Tokenization_failure c)
      else if toks L = [] then Undefined Null_dereference
      else and_then
             (if token (last (toks L)) = tok_consumable then delete_tail L else Returns L)
             (\<lambda>L. Returns (new_token tk (Some (strndup [c] 0 1)) L)))"

text \<open>One pass of the loop body, for the character \<open>c = s[i]\<close> after \<open>p\<close>.\<close>

definition scan_char :: "string \<Rightarrow> nat \<Rightarrow> char \<Rightarrow> char \<Rightarrow> lexer \<Rightarrow> lexer result" where
  "scan_char s i c p L =
     (if finding L \<noteq> CHR 0x00 then
        (if c \<noteq> finding L then Returns L
         else Returns (L\<lparr>finding := CHR 0x00, is_open := False\<rparr>))
      else
        (let tk = determine_token c p (restrict_type L) (current_token L) in
         and_then (check_pending c tk L) (\<lambda>L.
         and_then (mark_prefix tk L) (\<lambda>L.
         and_then (stay_open tk (close_on_ws tk L)) (\<lambda>L.
         if is_open L then Returns L
         else and_then (close_tail s i tk L) (emit i c tk))))))"

fun scan :: "string \<Rightarrow> nat \<Rightarrow> char \<Rightarrow> string \<Rightarrow> lexer \<Rightarrow> lexer result" where
  "scan s i p [] L = Returns L"
| "scan s i p (c # cs) L = and_then (scan_char s i c p L) (scan s (Suc i) c cs)"

text \<open>Lines 193 to 197, after the loop.\<close>

definition finish :: "string \<Rightarrow> lexer \<Rightarrow> token_t list result" where
  "finish s L =
     (if \<not> finalized L then
        (if toks L = [] then Undefined Null_dereference
         else Returns (toks (set_tail
           (\<lambda>t. t\<lparr>tvalue := Some (strndup s (token_start L) (length s - token_start L))\<rparr>) L)))
      else Returns (toks L))"

text \<open>A C string ends at its first NUL.\<close>

definition c_str :: "string \<Rightarrow> string" where
  "c_str s = takeWhile (\<lambda>c. c \<noteq> CHR 0x00) s"

definition tokenize :: "string \<Rightarrow> token_t list result" where
  "tokenize str = (let s = c_str str in and_then (scan s 0 (CHR 0x00) s lexer_init) (finish s))"

subsection \<open>The syntax tree\<close>

text \<open>
  The node classes derived from \<^verbatim>\<open>st_t\<close>. A \<^verbatim>\<open>call_t\<close> holds a \<^verbatim>\<open>list_t*\<close> that may
  be null: \<open>None\<close> is the null pointer, \<open>Some vs\<close> a list node with the values
  \<open>vs\<close>. Nodes are values here; the \<^verbatim>\<open>delete\<close> calls of the failure paths are not
  modelled.
\<close>

datatype st =
    var_t string
  | value_t token_type string token_type
  | set_t string st
  | list_t "st list"
  | call_t string "st list option"
  | bin_t token_type st st

text \<open>
  The constructor of \<^verbatim>\<open>value_t\<close> strips the quotes of a string with
  \<^verbatim>\<open>value.substr(1, value.length() - 2)\<close>. \<^verbatim>\<open>substr\<close> throws \<^verbatim>\<open>std::out_of_range\<close> when
  the string is empty; for a string of one character the count wraps to the largest
  \<^verbatim>\<open>size_t\<close> and the result is empty, which \<open>take 0\<close> gives as well.
\<close>

definition new_value_t :: "token_type \<Rightarrow> string \<Rightarrow> token_type \<Rightarrow> st result" where
  "new_value_t type_in value_in restriction_in =
     (if type_in = tok_string then
        (if length value_in < 1 then Throws Substr_out_of_range
         else Returns (value_t type_in (take (length value_in - 2) (drop 1 value_in))
                         restriction_in))
      else Returns (value_t type_in value_in restriction_in))"

text \<open>A \<^verbatim>\<open>std::string\<close> built from the \<^verbatim>\<open>char*\<close> of a token.\<close>

definition string_of :: "string option \<Rightarrow> string result" where
  "string_of v = (case v of None \<Rightarrow> Undefined Null_string | Some x \<Rightarrow> Returns x)"

subsection \<open>The grammar rules\<close>

text \<open>
  A rule takes the cursor \<^verbatim>\<open>*s\<close> and returns the node (\<open>None\<close> for \<^verbatim>\<open>nullptr\<close>)
  together with the cursor it leaves in \<^verbatim>\<open>*s\<close>. Reading \<^verbatim>\<open>(*s)->token\<close> at the end
  of the chain is a read through a null pointer.
\<close>

type_synonym parsed = "(st option \<times> token_t list) result"

definition parse_variable :: "token_t list \<Rightarrow> parsed" where
  "parse_variable s =
     (case s of [] \<Rightarrow> Undefined Null_dereference
      | t # nxt \<Rightarrow>
          if token t = tok_symbol
          then and_then (string_of (tvalue t)) (\<lambda>v. Returns (Some (var_t v), nxt))
          else Returns (None, s))"

definition parse_value :: "token_t list \<Rightarrow> token_type \<Rightarrow> parsed" where
  "parse_value s restriction =
     (case s of [] \<Rightarrow> Undefined Null_dereference
      | t # nxt \<Rightarrow>
          if token t = tok_symbol \<or> token t = tok_number \<or> token t = tok_string
          then and_then (string_of (tvalue t)) (\<lambda>v.
               and_then (new_value_t (token t) v restriction) (\<lambda>n. Returns (Some n, nxt)))
          else Returns (None, s))"

definition parse_restricted :: "token_t list \<Rightarrow> parsed" where
  "parse_restricted s =
     (case s of [] \<Rightarrow> Undefined Null_dereference
      | t # r \<Rightarrow>
          if token t = tok_hex \<or> token t = tok_bin then
            and_then (if r \<noteq> [] then parse_value r (token t) else Returns (None, r))
              (\<lambda>(n, r).
                 case n of
                   Some n \<Rightarrow> Returns (Some n, r)
                 | None \<Rightarrow>
                     if token t = tok_hex
                     then and_then (new_value_t tok_number '''' (token t))
                            (\<lambda>n. Returns (Some n, r))
                     else Returns (None, s))
          else Returns (None, s))"

text \<open>\<^verbatim>\<open>try(parser)\<close>: \<^verbatim>\<open>x = parser(s); if (x) return x\<close>, then the rest with what is in \<^verbatim>\<open>*s\<close>.\<close>

definition try_parser :: "parsed \<Rightarrow> (token_t list \<Rightarrow> parsed) \<Rightarrow> parsed" where
  "try_parser attempt rest =
     and_then attempt (\<lambda>(x, s). case x of Some n \<Rightarrow> Returns (Some n, s) | None \<Rightarrow> rest s)"

definition is_binary_op :: "token_type \<Rightarrow> bool" where
  "is_binary_op tk \<longleftrightarrow>
     tk = tok_plus \<or> tk = tok_minus \<or> tk = tok_mul \<or> tk = tok_div \<or> tk = tok_concat"

text \<open>
  The first argument of the mutually recursive rules is the recursion budget. The
  loop of \<^verbatim>\<open>parse_csv\<close> is \<open>parse_csv_loop\<close>, with the cursor \<open>r\<close> and the values
  pushed so far.
\<close>

function parse_expr :: "nat \<Rightarrow> token_t list \<Rightarrow> bool \<Rightarrow> bool \<Rightarrow> parsed"
  and parse_set :: "nat \<Rightarrow> token_t list \<Rightarrow> parsed"
  and parse_parenthesized :: "nat \<Rightarrow> token_t list \<Rightarrow> parsed"
  and parse_tok_binary_expr_post_lhs :: "nat \<Rightarrow> token_t list \<Rightarrow> st \<Rightarrow> parsed"
  and parse_tok_binary_expr :: "nat \<Rightarrow> token_t list \<Rightarrow> parsed"
  and parse_csv_loop :: "nat \<Rightarrow> token_t list \<Rightarrow> st list \<Rightarrow> (st list \<times> token_t list) result"
  and parse_csv :: "nat \<Rightarrow> token_t list \<Rightarrow> (st list option \<times> token_t list) result"
  and parse_fcall :: "nat \<Rightarrow> token_t list \<Rightarrow> parsed"
where
  "parse_expr 0 s allow_tok_binary allow_set = Out_of_fuel"
| "parse_expr (Suc n) s allow_tok_binary allow_set =
     try_parser (if allow_tok_binary then parse_tok_binary_expr n s else Returns (None, s)) (\<lambda>s.
     try_parser (if allow_set then parse_set n s else Returns (None, s)) (\<lambda>s.
     try_parser (parse_fcall n s) (\<lambda>s.
     try_parser (parse_parenthesized n s) (\<lambda>s.
     try_parser (parse_variable s) (\<lambda>s.
     try_parser (parse_restricted s) (\<lambda>s.
     try_parser (parse_value s tok_undef) (\<lambda>s.
     Returns (None, s))))))))"
| "parse_set 0 s = Out_of_fuel"
| "parse_set (Suc n) s =
     and_then (parse_variable s) (\<lambda>(var, r).
       case var of
         None \<Rightarrow> Returns (None, s)
       | Some var \<Rightarrow>
          (case r of
             [] \<Rightarrow> Returns (None, s)
           | t # nxt \<Rightarrow>
               if nxt = [] \<or> token t \<noteq> tok_equal then Returns (None, s)
               else and_then (parse_expr n nxt True False) (\<lambda>(val, r).
                      case val of
                        None \<Rightarrow> Returns (None, s)
                      | Some val \<Rightarrow>
                          Returns (Some (set_t (case var of var_t varname \<Rightarrow> varname) val), r))))"
| "parse_parenthesized 0 s = Out_of_fuel"
| "parse_parenthesized (Suc n) s =
     (case s of
        [] \<Rightarrow> Undefined Null_dereference
      | t # nxt \<Rightarrow>
          if token t \<noteq> tok_lparen \<or> nxt = [] then Returns (None, s)
          else and_then (parse_expr n nxt True False) (\<lambda>(v, r).
                 case v of
                   None \<Rightarrow> Returns (None, s)
                 | Some v \<Rightarrow>
                    (case r of
                       [] \<Rightarrow> Returns (None, s)
                     | t # nxt \<Rightarrow>
                         if token t \<noteq> tok_rparen then Returns (None, s)
                         else Returns (Some v, nxt))))"
| "parse_tok_binary_expr_post_lhs 0 s lhs = Out_of_fuel"
| "parse_tok_binary_expr_post_lhs (Suc n) s lhs =
     (case s of
        [] \<Rightarrow> Undefined Null_dereference
      | t # nxt \<Rightarrow>
          if \<not> is_binary_op (token t) then Returns (None, s)
          else if nxt = [] then Returns (None, s)
          else and_then (parse_expr n nxt True False) (\<lambda>(rhs, r).
                 case rhs of
                   None \<Rightarrow> Returns (None, s)
                 | Some rhs \<Rightarrow> Returns (Some (bin_t (token t) lhs rhs), r)))"
| "parse_tok_binary_expr 0 s = Out_of_fuel"
| "parse_tok_binary_expr (Suc n) s =
     and_then (parse_expr n s False False) (\<lambda>(lhs, r).
       case lhs of
         None \<Rightarrow> Returns (None, s)
       | Some lhs \<Rightarrow>
           if r = [] then Returns (None, s)
           else and_then (parse_tok_binary_expr_post_lhs n r lhs) (\<lambda>(res, r).
                  case res of
                    None \<Rightarrow> Returns (None, s)
                  | Some res \<Rightarrow> Returns (Some res, r)))"
| "parse_csv_loop 0 r vals = Out_of_fuel"
| "parse_csv_loop (Suc n) r vals =
     (if r = [] then Returns (vals, r)
      else and_then (parse_expr n r True False) (\<lambda>(nxt, r).
             case nxt of
               None \<Rightarrow> Returns (vals, r)
             | Some nxt \<Rightarrow>
                (case r of
                   [] \<Rightarrow> Returns (vals @ [nxt], r)
                 | t # r' \<Rightarrow>
                     if token t \<noteq> tok_comma then Returns (vals @ [nxt], r)
                     else parse_csv_loop n r' (vals @ [nxt]))))"
| "parse_csv 0 s = Out_of_fuel"
| "parse_csv (Suc n) s =
     and_then (parse_csv_loop n s []) (\<lambda>(vals, r).
       if length vals = 0 then Returns (None, s) else Returns (Some vals, r))"
| "parse_fcall 0 s = Out_of_fuel"
| "parse_fcall (Suc n) s =
     (case s of
        [] \<Rightarrow> Undefined Null_dereference
      | t # r \<Rightarrow>
          if token t \<noteq> tok_symbol then Returns (None, s)
          else and_then (string_of (tvalue t)) (\<lambda>fname.
                 case r of
                   [] \<Rightarrow> Returns (None, s)
                 | t' # nxt \<Rightarrow>
                     if nxt = [] \<or> token t' \<noteq> tok_lparen then Returns (None, s)
                     else and_then (parse_csv n nxt) (\<lambda>(args, r).
                            case r of
                              [] \<Rightarrow> Returns (None, s)
                            | t'' # nxt \<Rightarrow>
                                if token t'' \<noteq> tok_rparen then Returns (None, s)
                                else Returns (Some (call_t fname args), nxt))))"

  by pat_completeness auto

text \<open>Every recursive call is made with a smaller budget.\<close>

termination
  by (relation "measure (case_sum (case_sum (case_sum fst fst) (case_sum fst fst))
                                  (case_sum (case_sum fst fst) (case_sum fst fst)))") simp_all

text \<open>
  \<^verbatim>\<open>treeify\<close> throws when tokens are left and returns what \<^verbatim>\<open>parse_expr\<close> returned
  otherwise.
\<close>

definition treeify_fuel :: "nat \<Rightarrow> token_t list \<Rightarrow> st option result" where
  "treeify_fuel n tokens =
     and_then (parse_expr n tokens True True) (\<lambda>(val, s).
       case s of
         [] \<Rightarrow> Returns val
       | t # nxt \<Rightarrow> Throws (Treeify_failure (tvalue t)))"

text \<open>
  The budget \<open>4 * length tokens + 4\<close> is enough for every chain of tokens, and a
  larger one gives the same result (\<open>treeify_total\<close> and \<open>treeify_fuel_enough\<close>
  below).
\<close>

definition treeify :: "token_t list \<Rightarrow> st option result" where
  "treeify tokens = treeify_fuel (4 * length tokens + 4) tokens"

subsection \<open>Evaluation against the callback table\<close>

text \<open>
  \<^verbatim>\<open>typedef size_t ref\<close>, a 64-bit word, with \<^verbatim>\<open>nullref = 0\<close>. The callback table is
  an abstract class of the host; a host object has a state \<open>'h\<close> of its own, which
  every callback may read and change. The array \<^verbatim>\<open>argv\<close> of \<^verbatim>\<open>fcall\<close> is a list,
  beside its length \<^verbatim>\<open>argc\<close>. Exceptions thrown by the host are not modelled.
\<close>

type_synonym ref = "64 word"

definition nullref :: ref where
  "nullref = 0"

record 'h st_callback_table =
  load :: "string \<Rightarrow> 'h \<Rightarrow> ref \<times> 'h"
  save :: "string \<Rightarrow> ref \<Rightarrow> 'h \<Rightarrow> 'h"
  bin :: "token_type \<Rightarrow> ref \<Rightarrow> ref \<Rightarrow> 'h \<Rightarrow> ref \<times> 'h"
  unary :: "token_type \<Rightarrow> ref \<Rightarrow> 'h \<Rightarrow> ref \<times> 'h"
  fcall :: "string \<Rightarrow> nat \<Rightarrow> ref list \<Rightarrow> 'h \<Rightarrow> ref \<times> 'h"
  convert :: "string \<Rightarrow> token_type \<Rightarrow> token_type \<Rightarrow> 'h \<Rightarrow> ref \<times> 'h"

text \<open>
  \<^verbatim>\<open>bin_t::eval\<close> is \<^verbatim>\<open>return ct->bin(op_token, lhs->eval(ct), rhs->eval(ct));\<close>. C++
  does not fix the order in which the argument expressions of a call are evaluated;
  it only forbids interleaving them. The order taken is a parameter of the model.
\<close>

datatype arg_order = Left_first | Right_first

fun eval :: "arg_order \<Rightarrow> 'h st_callback_table \<Rightarrow> st \<Rightarrow> 'h \<Rightarrow> (ref \<times> 'h) result"
  and list_eval :: "arg_order \<Rightarrow> 'h st_callback_table \<Rightarrow> st list \<Rightarrow> 'h \<Rightarrow> (ref list \<times> 'h) result"
where
  "eval ord ct (var_t varname) h = Returns (load ct varname h)"
| "eval ord ct (value_t type v restriction) h = Returns (convert ct v type restriction h)"
| "eval ord ct (set_t varname val) h =
     and_then (eval ord ct val h) (\<lambda>(x, h). Returns (nullref, save ct varname x h))"
| "eval ord ct (list_t vals) h = Throws List_eval_failure"
| "eval ord ct (call_t fname None) h = Undefined Null_dereference"
| "eval ord ct (call_t fname (Some vals)) h =
     and_then (list_eval ord ct vals h) (\<lambda>(list, h).
       Returns (fcall ct fname (length vals) list h))"
| "eval ord ct (bin_t op_token lhs rhs) h =
     (case ord of
        Left_first \<Rightarrow>
          and_then (eval ord ct lhs h) (\<lambda>(x, h).
          and_then (eval ord ct rhs h) (\<lambda>(y, h).
            Returns (bin ct op_token x y h)))
      | Right_first \<Rightarrow>
          and_then (eval ord ct rhs h) (\<lambda>(y, h).
          and_then (eval ord ct lhs h) (\<lambda>(x, h).
            Returns (bin ct op_token x y h))))"
| "list_eval ord ct [] h = Returns ([], h)"
| "list_eval ord ct (v # vals) h =
     and_then (eval ord ct v h) (\<lambda>(x, h).
     and_then (list_eval ord ct vals h) (\<lambda>(list, h). Returns (x # list, h)))"

text \<open>
  A contract that records call order: \<open>recording ct\<close> answers as \<open>ct\<close> does and
  appends every call it receives to a log kept beside the state of \<open>ct\<close>.
\<close>

datatype callback =
    Load string
  | Save string ref
  | Bin token_type ref ref
  | Unary token_type ref
  | Fcall string nat "ref list"
  | Convert string token_type token_type

definition logged :: "callback \<Rightarrow> callback list \<Rightarrow> ('a \<times> 'h) \<Rightarrow> 'a \<times> 'h \<times> callback list" where
  "logged c log r = (fst r, snd r, log @ [c])"

definition recording :: "'h st_callback_table \<Rightarrow> ('h \<times> callback list) st_callback_table" where
  "recording ct =
     \<lparr>load = (\<lambda>v (h, log). logged (Load v) log (load ct v h)),
      save = (\<lambda>v x (h, log). (save ct v x h, log @ [Save v x])),
      bin = (\<lambda>op x y (h, log). logged (Bin op x y) log (bin ct op x y h)),
      unary = (\<lambda>op x (h, log). logged (Unary op x) log (unary ct op x h)),
      fcall = (\<lambda>f argc argv (h, log). logged (Fcall f argc argv) log (fcall ct f argc argv h)),
      convert = (\<lambda>v ty r (h, log). logged (Convert v ty r) log (convert ct v ty r h))\<rparr>"

text \<open>The calls a recording contract logs while a node, or a list of nodes, is evaluated.\<close>

definition calls :: "arg_order \<Rightarrow> 'h st_callback_table \<Rightarrow> st \<Rightarrow> 'h \<Rightarrow> callback list" where
  "calls ord ct n h =
     (case eval ord (recording ct) n (h, []) of Returns (x, h', log) \<Rightarrow> log | _ \<Rightarrow> [])"

definition list_calls :: "arg_order \<Rightarrow> 'h st_callback_table \<Rightarrow> st list \<Rightarrow> 'h \<Rightarrow> callback list" where
  "list_calls ord ct ns h =
     (case list_eval ord (recording ct) ns (h, []) of Returns (xs, h', log) \<Rightarrow> log | _ \<Rightarrow> [])"

text \<open>
  A host for the examples: its state counts the calls made, the variables \<open>a\<close>,
  \<open>b\<close> and \<open>c\<close> hold 5, 3 and 1, and \<open>tok_minus\<close> subtracts.
\<close>

definition counting_table :: "nat st_callback_table" where
  "counting_table =
     \<lparr>load = (\<lambda>v h. (if v = ''a'' then 5 else if v = ''b'' then 3
                      else if v = ''c'' then 1 else 0, Suc h)),
      save = (\<lambda>v x h. Suc h),
      bin = (\<lambda>op x y h. (if op = tok_minus then x - y else x + y, Suc h)),
      unary = (\<lambda>op x h. (x, Suc h)),
      fcall = (\<lambda>f argc argv h. (of_nat argc, Suc h)),
      convert = (\<lambda>v ty r h. (of_nat (length v), Suc h))\<rparr>"

subsection \<open>Predicates used in the proofs\<close>

text \<open>A failed rule leaves the cursor \<open>s\<close> where it was.\<close>

definition keeps :: "token_t list \<Rightarrow> ('a option \<times> token_t list) result \<Rightarrow> bool" where
  "keeps s r \<longleftrightarrow> (\<forall>s'. r = Returns (None, s') \<longrightarrow> s' = s)"

text \<open>A token has a text that is neither null nor empty.\<close>

definition has_text :: "token_t \<Rightarrow> bool" where
  "has_text t \<longleftrightarrow> (case tvalue t of None \<Rightarrow> False | Some v \<Rightarrow> v \<noteq> [])"

definition good_token :: "token_t \<Rightarrow> bool" where
  "good_token t \<longleftrightarrow> token t = tok_consumable \<or> has_text t"

text \<open>
  The invariant of the loop of \<^verbatim>\<open>tokenize\<close> at index \<open>i\<close>: all tokens but the tail are
  good, the tail is good unless its text is still pending, and a pending text starts
  before \<open>i\<close>.
\<close>

definition lexer_inv :: "nat \<Rightarrow> lexer \<Rightarrow> bool" where
  "lexer_inv i L \<longleftrightarrow>
     list_all good_token (butlast (toks L)) \<and>
     (finalized L \<longrightarrow> list_all good_token (toks L)) \<and>
     (\<not> finalized L \<longrightarrow> token_start L < i)"

text \<open>
  The tokens whose text is written once, where they are created (line 180): the
  parentheses, the operators \<^verbatim>\<open>+ - * /\<close>, the comma and the equal sign. Such a token
  has a single-character text when its text is the one character that
  \<^verbatim>\<open>determine_token\<close> gives its kind to.
\<close>

definition structural :: "token_type \<Rightarrow> bool" where
  "structural tk \<longleftrightarrow>
     tk = tok_equal \<or> tk = tok_lparen \<or> tk = tok_rparen \<or> tk = tok_mul \<or>
     tk = tok_plus \<or> tk = tok_minus \<or> tk = tok_div \<or> tk = tok_comma"

definition single_char :: "token_t \<Rightarrow> bool" where
  "single_char t \<longleftrightarrow>
     (structural (token t) \<longrightarrow>
        (\<exists>c. tvalue t = Some [c] \<and> determine_token c (CHR 0x00) tok_undef tok_undef = token t))"




text \<open>
  Putting a log in front of the log of a recorded run, and dropping the log of a
  recorded run.
\<close>

definition with_log ::
  "callback list \<Rightarrow> ('a \<times> 'h \<times> callback list) result \<Rightarrow> ('a \<times> 'h \<times> callback list) result" where
  "with_log log r =
     (case r of Returns (x, h, l) \<Rightarrow> Returns (x, h, log @ l) | Throws e \<Rightarrow> Throws e
      | Undefined u \<Rightarrow> Undefined u | Out_of_fuel \<Rightarrow> Out_of_fuel)"

definition forget_log :: "('a \<times> 'h \<times> callback list) result \<Rightarrow> ('a \<times> 'h) result" where
  "forget_log r =
     (case r of Returns (x, h, l) \<Rightarrow> Returns (x, h) | Throws e \<Rightarrow> Throws e
      | Undefined u \<Rightarrow> Undefined u | Out_of_fuel \<Rightarrow> Out_of_fuel)"

text \<open>A recorded computation only appends to the log, and answers as the plain one.\<close>

definition appends :: "('h \<times> callback list \<Rightarrow> ('a \<times> 'h \<times> callback list) result) \<Rightarrow> bool" where
  "appends m \<longleftrightarrow> (\<forall>h log. m (h, log) = with_log log (m (h, [])))"

definition simulates ::
  "('h \<times> callback list \<Rightarrow> ('a \<times> 'h \<times> callback list) result) \<Rightarrow> ('h \<Rightarrow> ('a \<times> 'h) result) \<Rightarrow> bool" where
  "simulates m' m \<longleftrightarrow> (\<forall>h log. forget_log (m' (h, log)) = m h)"

text \<open>A rule returns a cursor of at most \<open>k\<close> tokens.\<close>

definition shrinks :: "nat \<Rightarrow> ('a \<times> token_t list) result \<Rightarrow> bool" where
  "shrinks k r \<longleftrightarrow> (\<forall>x s'. r = Returns (x, s') \<longrightarrow> length s' \<le> k)"

text \<open>The recursion budget was enough.\<close>

definition funded :: "'a result \<Rightarrow> bool" where
  "funded r \<longleftrightarrow> r \<noteq> Out_of_fuel"

text \<open>The result \<open>r'\<close> got with a larger budget is \<open>r\<close>, unless \<open>r\<close> ran out of fuel.\<close>

definition settled :: "'a result \<Rightarrow> 'a result \<Rightarrow> bool" where
  "settled r r' \<longleftrightarrow> r = Out_of_fuel \<or> r' = r"

text \<open>
  Every symbol, number and string token of a chain has a text; a result is neither
  a fault nor an exception; a rule returns a cursor made of tokens of \<open>s\<close>.
\<close>

definition texted :: "token_t list \<Rightarrow> bool" where
  "texted ts \<longleftrightarrow>
     (\<forall>t \<in> set ts. token t = tok_symbol \<or> token t = tok_number \<or> token t = tok_string
        \<longrightarrow> has_text t)"

definition fine :: "'a result \<Rightarrow> bool" where
  "fine r \<longleftrightarrow> (case r of Returns x \<Rightarrow> True | Out_of_fuel \<Rightarrow> True | _ \<Rightarrow> False)"

definition sound :: "token_t list \<Rightarrow> ('a \<times> token_t list) result \<Rightarrow> bool" where
  "sound s r \<longleftrightarrow> fine r \<and> (\<forall>x s'. r = Returns (x, s') \<longrightarrow> set s' \<subseteq> set s)"

section \<open>The condition stack refines the naive vector\<close>

lemma unat_of_nat32: "n < 2 ^ 32 \<Longrightarrow> unat (of_nat n :: 32 word) = n"
  by (simp add: unat_of_nat)

lemma NO_FALSE_unat: "unat NO_FALSE = 2 ^ 32 - 1"
  by (simp add: NO_FALSE_def unsigned_minus_1_eq_mask mask_eq_exp_minus_1)

lemma of_nat_ne_NO_FALSE: "n < 2 ^ 32 - 1 \<Longrightarrow> (of_nat n :: 32 word) \<noteq> NO_FALSE"
proof
  assume n: "n < 2 ^ 32 - 1" and e: "(of_nat n :: 32 word) = NO_FALSE"
  have "unat (of_nat n :: 32 word) = n" using n by (simp add: unat_of_nat32)
  moreover have "unat (of_nat n :: 32 word) = unat NO_FALSE" by (rule arg_cong [OF e])
  ultimately show False using n NO_FALSE_unat by simp
qed

lemma of_nat_inj32: "n < 2 ^ 32 \<Longrightarrow> m < 2 ^ 32 \<Longrightarrow> ((of_nat n :: 32 word) = of_nat m) = (n = m)"
proof
  assume n: "n < 2 ^ 32" and m: "m < 2 ^ 32" and e: "(of_nat n :: 32 word) = of_nat m"
  have "unat (of_nat n :: 32 word) = unat (of_nat m :: 32 word)" by (rule arg_cong [OF e])
  then show "n = m" using n m by (simp only: unat_of_nat32)
qed simp

lemma takeWhile_len_lt: "\<not> naive_all_true v \<Longrightarrow> length (takeWhile (\<lambda>b. b) v) < length v"
  unfolding naive_all_true_def
  by (induction v) auto

lemma all_true_snoc: "naive_all_true (v @ [f]) = (naive_all_true v \<and> f)"
  by (simp add: naive_all_true_def)

lemma takeWhile_all: "naive_all_true v \<Longrightarrow> takeWhile (\<lambda>b. b) (v @ w) = v @ takeWhile (\<lambda>b. b) w"
  by (induction v) (simp_all add: naive_all_true_def)

lemma takeWhile_snoc_nt: "\<not> naive_all_true v \<Longrightarrow> takeWhile (\<lambda>b. b) (v @ w) = takeWhile (\<lambda>b. b) v"
  by (auto simp: naive_all_true_def list_all_iff)

lemma rel_push: 
  assumes "cs_rel c v" "length v < 2 ^ 32 - 1" shows "cs_rel (cs_push_back f c) (v @ [f])"
proof (cases "naive_all_true v")
  case True
  with assms show ?thesis
    by (auto simp: cs_rel_def cs_push_back_def all_true_snoc takeWhile_all of_nat_ne_NO_FALSE)
next
  case False
  with assms show ?thesis
    using takeWhile_len_lt[OF False]
    by (auto simp: cs_rel_def cs_push_back_def all_true_snoc takeWhile_snoc_nt of_nat_ne_NO_FALSE)
qed

lemma size_pos: "cs_rel c v \<Longrightarrow> (m_stack_size c > 0) = (v \<noteq> [])"
  by (auto simp: cs_rel_def word_gt_0 word_of_nat_eq_0_iff dest: dvd_imp_le)

lemma of_nat_pred: "0 < n \<Longrightarrow> (of_nat n :: 32 word) - 1 = of_nat (n - 1)"
  by (cases n) simp_all

lemma all_true_butlast: "naive_all_true v \<Longrightarrow> naive_all_true (butlast v)"
  by (auto simp: naive_all_true_def list_all_iff dest: in_set_butlastD)

lemma first_false_butlast:
  "v \<noteq> [] \<Longrightarrow> \<not> naive_all_true v \<Longrightarrow>
   (naive_all_true (butlast v)) = (length (takeWhile (\<lambda>b. b) v) = length v - 1)"
proof (induction v rule: rev_induct)
  case Nil then show ?case by simp
next
  case (snoc x xs)
  show ?case
  proof (cases "naive_all_true xs")
    case True
    with snoc.prems show ?thesis by (simp add: takeWhile_all all_true_snoc)
  next
    case False
    then show ?thesis using takeWhile_len_lt[OF False] by (simp add: takeWhile_snoc_nt)
  qed
qed

lemma first_false_butlast2:
  "v \<noteq> [] \<Longrightarrow> \<not> naive_all_true (butlast v) \<Longrightarrow>
   takeWhile (\<lambda>b. b) (butlast v) = takeWhile (\<lambda>b. b) v"
  by (metis append_butlast_last_id takeWhile_snoc_nt)

lemma pop_val:
  "m_stack_size c > 0 \<Longrightarrow> cs_pop_back c =
     Some \<lparr>m_stack_size = m_stack_size c - 1,
           m_first_false_pos = (if m_first_false_pos c = m_stack_size c - 1 then NO_FALSE
                                else m_first_false_pos c)\<rparr>"
  by (simp add: cs_pop_back_def Let_def)

lemma rel_pop:
  assumes "cs_rel c v" "v \<noteq> []"
  shows "\<exists>c'. cs_pop_back c = Some c' \<and> cs_rel c' (butlast v)"
proof -
  have pos: "m_stack_size c > 0" using assms size_pos by simp
  have len: "length v < 2 ^ 32" "0 < length v" using assms by (auto simp: cs_rel_def)
  have sz: "m_stack_size c - 1 = of_nat (length v - 1)"
    using assms len by (simp add: cs_rel_def of_nat_pred)
  have ffp: "m_first_false_pos c =
      (if naive_all_true v then NO_FALSE else of_nat (length (takeWhile (\<lambda>b. b) v)))"
    using assms by (simp add: cs_rel_def)
  have new: "(if m_first_false_pos c = m_stack_size c - 1 then NO_FALSE else m_first_false_pos c)
     = (if naive_all_true (butlast v) then NO_FALSE
        else of_nat (length (takeWhile (\<lambda>b. b) (butlast v))))"
  proof (cases "naive_all_true v")
    case True
    then show ?thesis using ffp all_true_butlast[OF True] by simp
  next
    case False
    have lt: "length (takeWhile (\<lambda>b. b) v) < length v" using False by (rule takeWhile_len_lt)
    have "m_first_false_pos c = of_nat (length (takeWhile (\<lambda>b. b) v))"
      using ffp False by simp
    moreover have "((of_nat (length (takeWhile (\<lambda>b. b) v)) :: 32 word) = of_nat (length v - 1))
        = (length (takeWhile (\<lambda>b. b) v) = length v - 1)"
      using lt len by (intro of_nat_inj32) simp_all
    ultimately have eqiff: "(m_first_false_pos c = m_stack_size c - 1) = naive_all_true (butlast v)"
      using first_false_butlast[OF assms(2) False] by (simp only: sz)
    show ?thesis
    proof (cases "naive_all_true (butlast v)")
      case True
      then show ?thesis using eqiff by simp
    next
      case nt: False
      then show ?thesis using eqiff ffp False first_false_butlast2[OF assms(2) nt] by simp
    qed
  qed
  have "cs_rel \<lparr>m_stack_size = m_stack_size c - 1,
           m_first_false_pos = (if m_first_false_pos c = m_stack_size c - 1 then NO_FALSE
                                else m_first_false_pos c)\<rparr> (butlast v)"
    unfolding cs_rel_def using len sz new by simp
  then show ?thesis using pop_val[OF pos] by simp
qed

lemma rel_toggle:
  assumes "cs_rel c v" "v \<noteq> []"
  shows "\<exists>c'. cs_toggle_top c = Some c' \<and> cs_rel c' (butlast v @ [\<not> last v])"
proof -
  have pos: "m_stack_size c > 0" using assms size_pos by simp
  have len: "length v < 2 ^ 32" "0 < length v" using assms by (auto simp: cs_rel_def)
  have sz: "m_stack_size c - 1 = of_nat (length v - 1)"
    using assms len by (simp add: cs_rel_def of_nat_pred)
  have szc: "m_stack_size c = of_nat (length v)" using assms by (simp add: cs_rel_def)
  have ffp: "m_first_false_pos c =
      (if naive_all_true v then NO_FALSE else of_nat (length (takeWhile (\<lambda>b. b) v)))"
    using assms by (simp add: cs_rel_def)
  have v: "v = butlast v @ [last v]" using assms by simp
  have lenb: "length (butlast v) < 2 ^ 32 - 1" using len by simp
  show ?thesis
  proof (cases "naive_all_true v")
    case True
    then have b: "naive_all_true (butlast v)" by (rule all_true_butlast)
    have l: "last v" using True v by (metis all_true_snoc)
    have "cs_toggle_top c = Some (c\<lparr>m_first_false_pos := m_stack_size c - 1\<rparr>)"
      using pos ffp True by (simp add: cs_toggle_top_def)
    moreover have "cs_rel (c\<lparr>m_first_false_pos := m_stack_size c - 1\<rparr>) (butlast v @ [\<not> last v])"
      unfolding cs_rel_def using len sz szc b l by (simp add: all_true_snoc takeWhile_all)
    ultimately show ?thesis by simp
  next
    case False
    have lt: "length (takeWhile (\<lambda>b. b) v) < length v" using False by (rule takeWhile_len_lt)
    have ne: "m_first_false_pos c \<noteq> NO_FALSE"
      using ffp False lt len by (simp add: of_nat_ne_NO_FALSE)
    have "m_first_false_pos c = of_nat (length (takeWhile (\<lambda>b. b) v))"
      using ffp False by simp
    moreover have "((of_nat (length (takeWhile (\<lambda>b. b) v)) :: 32 word) = of_nat (length v - 1))
        = (length (takeWhile (\<lambda>b. b) v) = length v - 1)"
      using lt len by (intro of_nat_inj32) simp_all
    ultimately have eqiff: "(m_first_false_pos c = m_stack_size c - 1) = naive_all_true (butlast v)"
      using first_false_butlast[OF assms(2) False] by (simp only: sz)
    show ?thesis
    proof (cases "naive_all_true (butlast v)")
      case True
      have l: "\<not> last v" using True False v by (metis all_true_snoc)
      have "cs_toggle_top c = Some (c\<lparr>m_first_false_pos := NO_FALSE\<rparr>)"
        using pos ne eqiff True by (simp add: cs_toggle_top_def)
      moreover have "cs_rel (c\<lparr>m_first_false_pos := NO_FALSE\<rparr>) (butlast v @ [\<not> last v])"
        unfolding cs_rel_def using len szc True l by (simp add: all_true_snoc)
      ultimately show ?thesis by simp
    next
      case nt: False
      have "cs_toggle_top c = Some c"
        using pos ne eqiff nt by (simp add: cs_toggle_top_def)
      moreover have "cs_rel c (butlast v @ [\<not> last v])"
        unfolding cs_rel_def using len szc nt ffp False first_false_butlast2[OF assms(2) nt]
        by (simp add: all_true_snoc takeWhile_snoc_nt)
      ultimately show ?thesis by simp
    qed
  qed
qed

lemma cs_rel_init: "cs_rel cs_init []"
  by (simp add: cs_rel_def cs_init_def naive_all_true_def)

lemma cs_rel_apply:
  assumes "cs_rel c v" "naive_apply x v = Some v'" "length v' < 2 ^ 32"
  shows "\<exists>c'. cs_apply x c = Some c' \<and> cs_rel c' v'"
proof (cases x)
  case (Push_back f)
  then have v': "v' = v @ [f]" using assms(2) by simp
  then have "length v < 2 ^ 32 - 1" using assms(3) by simp
  with assms(1) have "cs_rel (cs_push_back f c) (v @ [f])" by (rule rel_push)
  then show ?thesis using Push_back v' by simp
next
  case Pop_back
  then show ?thesis using assms rel_pop by (auto split: if_splits)
next
  case Toggle_top
  then show ?thesis using assms rel_toggle by (auto split: if_splits)
qed

lemma stays_below_length: "stays_below k ops v \<Longrightarrow> length v < k"
  by (cases ops) simp_all

lemma cs_rel_run:
  "cs_rel c v \<Longrightarrow> stays_below (2 ^ 32) ops v \<Longrightarrow> naive_run ops v = Some v' \<Longrightarrow>
   \<exists>c'. cs_run ops c = Some c' \<and> cs_rel c' v'"
proof (induction ops arbitrary: c v)
  case Nil
  then show ?case by simp
next
  case (Cons x xs)
  from Cons.prems(3) obtain v1 where v1: "naive_apply x v = Some v1" "naive_run xs v1 = Some v'"
    by (auto split: option.splits)
  have below: "stays_below (2 ^ 32) xs v1" using Cons.prems(2) v1(1) by simp
  then have "length v1 < 2 ^ 32" by (rule stays_below_length)
  with Cons.prems(1) v1(1) obtain c1 where c1: "cs_apply x c = Some c1" "cs_rel c1 v1"
    using cs_rel_apply by blast
  from Cons.IH[OF c1(2) below v1(2)] c1(1) show ?case by simp
qed

text \<open>
  The bound is on the depth of the stack, not on the number of calls: a run of any
  length that pushes and pops in turn stays below every bound above 1.
\<close>

lemma alternating_run:
  "naive_run (concat (replicate n [Push_back f, Pop_back])) [] = Some []"
  by (induction n) simp_all

lemma alternating_stays_below:
  "1 < k \<Longrightarrow> stays_below k (concat (replicate n [Push_back f, Pop_back])) []"
  by (induction n) simp_all

lemma prefix_all_true:
  "idx < length v \<Longrightarrow> (idx < length (takeWhile (\<lambda>b. b) v)) = naive_all_true (take (Suc idx) v)"
proof (induction v arbitrary: idx)
  case Nil then show ?case by simp
next
  case (Cons a v)
  then show ?case by (cases idx) (auto simp: naive_all_true_def)
qed

lemma cs_rel_observe:
  assumes "cs_rel c v"
  shows "cs_empty c = (v = [])" "cs_size c = length v" "cs_all_true c = naive_all_true v"
    "idx < length v \<Longrightarrow> cs_at c idx = naive_all_true (take (Suc idx) v)"
proof -
  have len: "length v < 2 ^ 32" using assms by (simp add: cs_rel_def)
  have sz: "m_stack_size c = of_nat (length v)" using assms by (simp add: cs_rel_def)
  show "cs_size c = length v" using len by (simp add: cs_size_def sz unat_of_nat32)
  show "cs_empty c = (v = [])" using size_pos[OF assms] by (simp add: cs_empty_def word_gt_0)
  show "cs_all_true c = naive_all_true v"
  proof (cases "naive_all_true v")
    case True then show ?thesis using assms by (simp add: cs_rel_def cs_all_true_def)
  next
    case False
    have "length (takeWhile (\<lambda>b. b) v) < 2 ^ 32 - 1" using takeWhile_len_lt[OF False] len by simp
    then show ?thesis using assms False by (simp add: cs_rel_def cs_all_true_def of_nat_ne_NO_FALSE)
  qed
  show "cs_at c idx = naive_all_true (take (Suc idx) v)" if i: "idx < length v"
  proof (cases "naive_all_true v")
    case True
    then have "naive_all_true (take (Suc idx) v)"
      by (auto simp: naive_all_true_def list_all_iff dest: in_set_takeD)
    moreover have "m_first_false_pos c = NO_FALSE" using assms True by (simp add: cs_rel_def)
    ultimately show ?thesis using i len by (simp add: cs_at_def NO_FALSE_unat)
  next
    case False
    have lt: "length (takeWhile (\<lambda>b. b) v) < 2 ^ 32" using takeWhile_len_lt[OF False] len by simp
    have "m_first_false_pos c = of_nat (length (takeWhile (\<lambda>b. b) v))"
      using assms False by (simp add: cs_rel_def)
    then have "unat (m_first_false_pos c) = length (takeWhile (\<lambda>b. b) v)"
      using lt by (simp only: unat_of_nat32)
    then show ?thesis using prefix_all_true[OF i] by (simp add: cs_at_def)
  qed
qed

text \<open>
  Claim C10, as the code has it. For every sequence of calls of \<^verbatim>\<open>push_back\<close>,
  \<^verbatim>\<open>pop_back\<close> and \<^verbatim>\<open>toggle_top\<close> that the naive vector of booleans accepts (no
  pop or toggle of an empty vector) and during which the vector always holds fewer
  than \<open>2 ^ 32\<close> elements, the optimised object accepts it too and agrees with the
  vector on \<^verbatim>\<open>empty()\<close>, \<^verbatim>\<open>size()\<close> and \<^verbatim>\<open>all_true()\<close>; \<^verbatim>\<open>at(idx)\<close>, for \<open>idx\<close>
  below the size, tells whether the elements at positions \<open>0..idx\<close> of the vector
  are all true. The number of calls is not bounded.
\<close>

theorem condition_stack_refines_naive:
  assumes "naive_run ops [] = Some v" and "stays_below (2 ^ 32) ops []"
  shows "\<exists>c. cs_run ops cs_init = Some c \<and>
             cs_empty c = (v = []) \<and> cs_size c = length v \<and>
             cs_all_true c = naive_all_true v \<and>
             (\<forall>idx < length v. cs_at c idx = naive_all_true (take (Suc idx) v))"
proof -
  from cs_rel_run[OF cs_rel_init assms(2) assms(1)]
  obtain c where c: "cs_run ops cs_init = Some c" "cs_rel c v" by auto
  show ?thesis using c(1) cs_rel_observe[OF c(2)] by simp
qed

text \<open>The theorem at a run of five calls that ends with the vector \<open>[True, True]\<close>.\<close>

theorem condition_stack_refines_naive_witness:
  "naive_run [Push_back True, Push_back False, Toggle_top, Push_back False, Pop_back] [] = Some [True, True] \<and>
   stays_below (2 ^ 32) [Push_back True, Push_back False, Toggle_top, Push_back False, Pop_back] [] \<and>
   (\<exists>c. cs_run [Push_back True, Push_back False, Toggle_top, Push_back False, Pop_back] cs_init = Some c \<and>
             cs_empty c = ([True, True] = []) \<and> cs_size c = length [True, True] \<and>
             cs_all_true c = naive_all_true [True, True] \<and>
             (\<forall>idx < length [True, True]. cs_at c idx = naive_all_true (take (Suc idx) [True, True])))"
proof -
  have n: "naive_run [Push_back True, Push_back False, Toggle_top, Push_back False, Pop_back] [] = Some [True, True]"
    by simp
  have l: "stays_below (2 ^ 32) [Push_back True, Push_back False, Toggle_top, Push_back False, Pop_back] []"
    by simp
  show ?thesis using n l condition_stack_refines_naive[OF n l] by blast
qed

lemma cs_run_push_true:
  "cs_run (replicate n (Push_back True) @ rest) c =
   cs_run rest (c\<lparr>m_stack_size := m_stack_size c + of_nat n\<rparr>)"
  by (induction n arbitrary: c) (simp_all add: cs_push_back_def ac_simps)

lemma naive_run_push_true:
  "naive_run (replicate n (Push_back True) @ rest) v = naive_run rest (v @ replicate n True)"
  by (induction n arbitrary: v) (simp_all add: replicate_app_Cons_same)

lemma word32_all_ones: "(of_nat (2 ^ 32 - 1) :: 32 word) = - 1"
  by simp

text \<open>
  Claim C10 as stated fails twice. After \<^verbatim>\<open>push_back(false); push_back(true)\<close> the
  vector holds true at index 1, and \<^verbatim>\<open>at(1)\<close> is false. After \<open>2 ^ 32 - 1\<close> pushes of
  true and one push of false, the 32-bit size has wrapped to 0 and the position
  written for the false element equals \<^verbatim>\<open>NO_FALSE\<close>, so \<^verbatim>\<open>all_true()\<close> still holds.
\<close>

theorem condition_stack_counterexample:
  "naive_run [Push_back False, Push_back True] [] = Some [False, True] \<and>
   cs_run [Push_back False, Push_back True] cs_init =
     Some \<lparr>m_stack_size = 2, m_first_false_pos = 0\<rparr> \<and>
   [False, True] ! 1 \<and> \<not> cs_at \<lparr>m_stack_size = 2, m_first_false_pos = 0\<rparr> 1 \<and>
   naive_run (replicate (2 ^ 32 - 1) (Push_back True) @ [Push_back False]) [] =
     Some (replicate (2 ^ 32 - 1) True @ [False]) \<and>
   cs_run (replicate (2 ^ 32 - 1) (Push_back True) @ [Push_back False]) cs_init =
     Some \<lparr>m_stack_size = 0, m_first_false_pos = NO_FALSE\<rparr> \<and>
   \<not> naive_all_true (replicate (2 ^ 32 - 1) True @ [False]) \<and>
   cs_all_true \<lparr>m_stack_size = 0, m_first_false_pos = NO_FALSE\<rparr>"
proof -
  have a: "naive_run [Push_back False, Push_back True] [] = Some [False, True]" by simp
  have b: "cs_run [Push_back False, Push_back True] cs_init =
     Some \<lparr>m_stack_size = 2, m_first_false_pos = 0\<rparr>"
    by (simp add: cs_init_def cs_push_back_def NO_FALSE_def)
  have c: "[False, True] ! 1 \<and> \<not> cs_at \<lparr>m_stack_size = 2, m_first_false_pos = 0\<rparr> 1"
    by (simp add: cs_at_def)
  have d: "naive_run (replicate n (Push_back True) @ [Push_back False]) [] =
     Some (replicate n True @ [False])" for n
    by (simp only: naive_run_push_true) simp
  have e: "cs_run (replicate (2 ^ 32 - 1) (Push_back True) @ [Push_back False]) cs_init =
     Some \<lparr>m_stack_size = 0, m_first_false_pos = NO_FALSE\<rparr>"
    by (simp only: cs_run_push_true word32_all_ones)
       (simp add: cs_init_def cs_push_back_def NO_FALSE_def)
  have f: "\<not> naive_all_true (replicate n True @ [False])" for n
    by (simp add: naive_all_true_def)
  have g: "cs_all_true \<lparr>m_stack_size = 0, m_first_false_pos = NO_FALSE\<rparr>"
    by (simp add: cs_all_true_def)
  show ?thesis using a b c d e f g by blast
qed

section \<open>Sequencing\<close>

lemma and_then_Returns:
  "and_then m f = Returns y \<longleftrightarrow> (\<exists>x. m = Returns x \<and> f x = Returns y)"
  by (cases m) (simp_all add: and_then_def)

lemma and_then_simps [simp]:
  "and_then (Returns x) f = f x"
  "and_then (Throws e) f = Throws e"
  "and_then (Undefined u) f = Undefined u"
  "and_then Out_of_fuel f = Out_of_fuel"
  by (simp_all add: and_then_def)

section \<open>The lexer on the inputs of the specification\<close>

text \<open>
  Claim C2. \<^verbatim>\<open>tokenize\<close> has a third outcome: when the first character that makes a
  token is one of \<^verbatim>\<open>+ - * / , = )\<close>, a \<^verbatim>\<open>(\<close> or a single \<^verbatim>\<open>|\<close>, the code reads
  \<^verbatim>\<open>tail->token\<close> while \<^verbatim>\<open>tail\<close> is still null (lines 123 and 174). It neither returns
  tokens nor throws.
\<close>

theorem tokenize_reads_null_tail:
  "tokenize ''+'' = Undefined Null_dereference \<and>
   tokenize ''-'' = Undefined Null_dereference \<and>
   tokenize ''*'' = Undefined Null_dereference \<and>
   tokenize ''/'' = Undefined Null_dereference \<and>
   tokenize '','' = Undefined Null_dereference \<and>
   tokenize ''='' = Undefined Null_dereference \<and>
   tokenize '')'' = Undefined Null_dereference \<and>
   tokenize ''|'' = Undefined Null_dereference \<and>
   tokenize ''-1'' = Undefined Null_dereference \<and>
   tokenize ''(a)'' = Undefined Null_dereference"
  by code_simp

text \<open>
  Claim C4 as stated fails: at the start of the input the prefixes \<^verbatim>\<open>0x\<close> and \<^verbatim>\<open>0b\<close>
  end in the read through the null tail, and after an earlier token \<^verbatim>\<open>0b\<close> alone is
  lexed without an error.
\<close>

theorem prefix_at_start_counterexample:
  "tokenize ''0x1F'' = Undefined Null_dereference \<and>
   tokenize ''0x'' = Undefined Null_dereference \<and>
   tokenize ''0b'' = Undefined Null_dereference \<and>
   tokenize ''a=0b'' = Returns
     [\<lparr>token = tok_symbol, tvalue = Some ''a''\<rparr>,
      \<lparr>token = tok_equal, tvalue = Some ''=''\<rparr>,
      \<lparr>token = tok_bin, tvalue = Some ''0b''\<rparr>]"
  by code_simp

text \<open>
  Claim C4, as the code has it, for a prefix that follows an earlier token. The
  lexer gives the marker token and the number token; \<^verbatim>\<open>parse_restricted\<close> makes one
  literal with the restriction hex and the text \<^verbatim>\<open>1F\<close> of them. The marker \<^verbatim>\<open>0x\<close>
  alone is parsed to a number literal with empty text under the restriction hex. The
  marker \<^verbatim>\<open>0b\<close> alone is lexed without an error; \<^verbatim>\<open>parse_restricted\<close> refuses it and
  \<^verbatim>\<open>treeify\<close> throws.
\<close>

theorem prefix_after_token:
  "tokenize ''a=0x1F'' = Returns
     [\<lparr>token = tok_symbol, tvalue = Some ''a''\<rparr>,
      \<lparr>token = tok_equal, tvalue = Some ''=''\<rparr>,
      \<lparr>token = tok_hex, tvalue = Some ''0x''\<rparr>,
      \<lparr>token = tok_number, tvalue = Some ''1F''\<rparr>] \<and>
   parse_restricted
     [\<lparr>token = tok_hex, tvalue = Some ''0x''\<rparr>,
      \<lparr>token = tok_number, tvalue = Some ''1F''\<rparr>] =
     Returns (Some (value_t tok_number ''1F'' tok_hex), []) \<and>
   and_then (tokenize ''a=0x1F'') treeify =
     Returns (Some (set_t ''a'' (value_t tok_number ''1F'' tok_hex))) \<and>
   tokenize ''a=0x'' = Returns
     [\<lparr>token = tok_symbol, tvalue = Some ''a''\<rparr>,
      \<lparr>token = tok_equal, tvalue = Some ''=''\<rparr>,
      \<lparr>token = tok_hex, tvalue = Some ''0x''\<rparr>] \<and>
   parse_restricted [\<lparr>token = tok_hex, tvalue = Some ''0x''\<rparr>] =
     Returns (Some (value_t tok_number [] tok_hex), []) \<and>
   and_then (tokenize ''a=0x'') treeify =
     Returns (Some (set_t ''a'' (value_t tok_number [] tok_hex))) \<and>
   tokenize ''a=0b'' = Returns
     [\<lparr>token = tok_symbol, tvalue = Some ''a''\<rparr>,
      \<lparr>token = tok_equal, tvalue = Some ''=''\<rparr>,
      \<lparr>token = tok_bin, tvalue = Some ''0b''\<rparr>] \<and>
   parse_restricted [\<lparr>token = tok_bin, tvalue = Some ''0b''\<rparr>] =
     Returns (None, [\<lparr>token = tok_bin, tvalue = Some ''0b''\<rparr>]) \<and>
   and_then (tokenize ''a=0b'') treeify = Throws (Treeify_failure (Some ''=''))"
  by code_simp

text \<open>
  Claim C5 as stated fails: \<^verbatim>\<open>a|b\<close> is not a tokenization failure. The pending marker
  stays in the sequence as a consumable token without text.
\<close>

theorem single_pipe_counterexample:
  "tokenize ''a|b'' = Returns
     [\<lparr>token = tok_symbol, tvalue = Some ''a''\<rparr>,
      \<lparr>token = tok_consumable, tvalue = None\<rparr>,
      \<lparr>token = tok_symbol, tvalue = Some ''b''\<rparr>]"
  by code_simp

text \<open>
  Claim C5, as the code has it, on its two inputs: \<^verbatim>\<open>a||b\<close> lexes to symbol,
  concat, symbol; \<^verbatim>\<open>a|b\<close> lexes without an error to symbol, consumable, symbol, the
  pending marker staying in the sequence without a text. On \<^verbatim>\<open>a| |b\<close>, where a second
  pending marker follows a pending marker, the lexer throws.
\<close>

theorem pipe_disambiguation:
  "tokenize ''a||b'' = Returns
     [\<lparr>token = tok_symbol, tvalue = Some ''a''\<rparr>,
      \<lparr>token = tok_concat, tvalue = Some ''||''\<rparr>,
      \<lparr>token = tok_symbol, tvalue = Some ''b''\<rparr>] \<and>
   tokenize ''a|b'' = Returns
     [\<lparr>token = tok_symbol, tvalue = Some ''a''\<rparr>,
      \<lparr>token = tok_consumable, tvalue = None\<rparr>,
      \<lparr>token = tok_symbol, tvalue = Some ''b''\<rparr>] \<and>
   tokenize ''a| |b'' = Throws (Tokenization_failure CHR ''|'')"
  by code_simp

section \<open>The text of the tokens\<close>

lemma list_all_butlast: "list_all P xs \<Longrightarrow> list_all P (butlast xs)"
  by (auto simp: list_all_iff dest: in_set_butlastD)

lemma check_pending_same: "check_pending c tk L = Returns L' \<Longrightarrow> L' = L"
  by (auto simp: check_pending_def split: if_splits)

lemma mark_prefix_inv:
  "mark_prefix tk L = Returns L' \<Longrightarrow> lexer_inv i L \<Longrightarrow> lexer_inv i L'"
  by (auto simp: mark_prefix_def set_tail_def lexer_inv_def good_token_def
           split: if_splits dest: list_all_butlast)

lemma close_on_ws_inv: "lexer_inv i L \<Longrightarrow> lexer_inv i (close_on_ws tk L)"
  by (simp add: close_on_ws_def lexer_inv_def)

lemma stay_open_inv: "stay_open tk L = Returns L' \<Longrightarrow> lexer_inv i L \<Longrightarrow> lexer_inv i L'"
  by (auto simp: stay_open_def lexer_inv_def split: if_splits)

lemma strndup_nonempty: "from < i \<Longrightarrow> i \<le> length s \<Longrightarrow> strndup s from (i - from) \<noteq> []"
  by (simp add: strndup_def)

text \<open>After lines 139 to 149 every token of the chain is good.\<close>

lemma close_tail_inv:
  assumes "close_tail s i tk L = Returns L'" "lexer_inv i L" "i \<le> length s"
  shows "list_all good_token (toks L') \<and> (\<not> finalized L' \<longrightarrow> token_start L' < i)"
proof (cases "toks L \<noteq> [] \<and> token (last (toks L)) = tok_consumable")
  case True
  then have "good_token (last (toks L))" by (simp add: good_token_def)
  moreover have "list_all good_token (butlast (toks L))" using assms(2) by (simp add: lexer_inv_def)
  ultimately have "list_all good_token (butlast (toks L) @ [last (toks L)])" by simp
  then have all: "list_all good_token (toks L)" using True by simp
  show ?thesis
  proof (cases "tk = tok_hex \<or> tk = tok_bin")
    case hb: True
    then show ?thesis using assms True
      by (auto simp: close_tail_def delete_tail_def lexer_inv_def split: if_splits)
  next
    case False
    then have "L' = L" using assms(1) True by (auto simp: close_tail_def)
    then show ?thesis using all assms(2) by (simp add: lexer_inv_def)
  qed
next
  case False
  show ?thesis
  proof (cases "finalized L")
    case True
    then have "L' = L" using assms(1) False by (auto simp: close_tail_def)
    then show ?thesis using assms(2) True by (simp add: lexer_inv_def)
  next
    case nf: False
    then have ne: "toks L \<noteq> []" using assms(1) False by (auto simp: close_tail_def split: if_splits)
    have L': "L' = (set_tail (\<lambda>t. t\<lparr>tvalue := Some (strndup s (token_start L) (i - token_start L))\<rparr>) L)
              \<lparr>finalized := True\<rparr>"
      using assms(1) False nf ne by (auto simp: close_tail_def split: if_splits)
    have "token_start L < i" using assms(2) nf by (simp add: lexer_inv_def)
    then have "strndup s (token_start L) (i - token_start L) \<noteq> []"
      using assms(3) by (rule strndup_nonempty)
    then have "good_token ((last (toks L))\<lparr>tvalue := Some (strndup s (token_start L) (i - token_start L))\<rparr>)"
      by (simp add: good_token_def has_text_def)
    moreover have "list_all good_token (butlast (toks L))" using assms(2) by (simp add: lexer_inv_def)
    ultimately show ?thesis by (simp add: L' set_tail_def)
  qed
qed

lemma delete_tail_good:
  "delete_tail L = Returns L' \<Longrightarrow> list_all good_token (toks L) \<Longrightarrow>
   list_all good_token (toks L') \<and> finalized L' = finalized L \<and> token_start L' = token_start L"
  by (auto simp: delete_tail_def split: if_splits dest: list_all_butlast)

lemma emit_inv:
  assumes "emit i c tk L = Returns L'" "list_all good_token (toks L)"
    "\<not> finalized L \<longrightarrow> token_start L < i"
  shows "lexer_inv (Suc i) L'"
proof (cases "starts_run tk")
  case True
  then show ?thesis using assms by (auto simp: emit_def new_token_def lexer_inv_def)
next
  case False
  show ?thesis
  proof (cases "tk = tok_ws")
    case True
    then show ?thesis using assms False
      by (auto simp: emit_def lexer_inv_def dest: list_all_butlast)
  next
    case nws: False
    from assms(1) False nws obtain L1 where
      L1: "(if token (last (toks L)) = tok_consumable then delete_tail L else Returns L) = Returns L1"
      and L': "L' = new_token tk (Some (strndup [c] 0 1)) L1"
      by (auto simp: emit_def and_then_Returns split: if_splits)
    have g: "list_all good_token (toks L1) \<and> finalized L1 = finalized L \<and> token_start L1 = token_start L"
      using L1 delete_tail_good[OF _ assms(2)] assms(2) by (auto split: if_splits)
    have "good_token \<lparr>token = tk, tvalue = Some (strndup [c] 0 1)\<rparr>"
      by (simp add: good_token_def has_text_def strndup_def)
    then show ?thesis using g assms(3) by (auto simp: L' new_token_def lexer_inv_def)
  qed
qed

lemma scan_char_inv:
  assumes "scan_char s i c p L = Returns L'" "lexer_inv i L" "i < length s"
  shows "lexer_inv (Suc i) L'"
proof (cases "finding L \<noteq> CHR 0x00")
  case True
  then have "toks L' = toks L \<and> finalized L' = finalized L \<and> token_start L' = token_start L"
    using assms(1) by (auto simp: scan_char_def split: if_splits)
  then show ?thesis using assms(2) by (auto simp: lexer_inv_def)
next
  case False
  let ?tk = "determine_token c p (restrict_type L) (current_token L)"
  from assms(1) False obtain L1 L2 L3 where
    1: "check_pending c ?tk L = Returns L1" and
    2: "mark_prefix ?tk L1 = Returns L2" and
    3: "stay_open ?tk (close_on_ws ?tk L2) = Returns L3" and
    4: "(if is_open L3 then Returns L3 else and_then (close_tail s i ?tk L3) (emit i c ?tk)) = Returns L'"
    by (auto simp: scan_char_def Let_def and_then_Returns)
  have i3: "lexer_inv i L3"
    using 1 2 3 assms(2) check_pending_same mark_prefix_inv close_on_ws_inv stay_open_inv by metis
  show ?thesis
  proof (cases "is_open L3")
    case True
    then have "L' = L3" using 4 by simp
    then show ?thesis using i3 by (auto simp: lexer_inv_def)
  next
    case no: False
    then obtain L4 where 5: "close_tail s i ?tk L3 = Returns L4" and 6: "emit i c ?tk L4 = Returns L'"
      using 4 by (auto simp: and_then_Returns)
    have "list_all good_token (toks L4) \<and> (\<not> finalized L4 \<longrightarrow> token_start L4 < i)"
      using close_tail_inv[OF 5 i3] assms(3) by simp
    then show ?thesis using emit_inv[OF 6] by simp
  qed
qed

lemma scan_inv:
  "scan s i p cs L = Returns L' \<Longrightarrow> lexer_inv i L \<Longrightarrow> i + length cs = length s \<Longrightarrow>
   lexer_inv (length s) L'"
proof (induction cs arbitrary: i p L)
  case Nil
  then show ?case by simp
next
  case (Cons c cs)
  from Cons.prems(1) obtain L1 where
    1: "scan_char s i c p L = Returns L1" and 2: "scan s (Suc i) c cs L1 = Returns L'"
    by (auto simp: and_then_Returns)
  have "lexer_inv (Suc i) L1" using scan_char_inv[OF 1 Cons.prems(2)] Cons.prems(3) by simp
  from Cons.IH[OF 2 this] Cons.prems(3) show ?case by simp
qed

lemma lexer_inv_init: "lexer_inv 0 lexer_init"
  by (simp add: lexer_inv_def lexer_init_def)

lemma finish_good:
  assumes "finish s L = Returns ts" "lexer_inv (length s) L"
  shows "list_all good_token ts"
proof (cases "finalized L")
  case True
  then show ?thesis using assms by (auto simp: finish_def lexer_inv_def)
next
  case False
  then have ne: "toks L \<noteq> []" using assms(1) by (auto simp: finish_def split: if_splits)
  have ts: "ts = butlast (toks L) @
      [(last (toks L))\<lparr>tvalue := Some (strndup s (token_start L) (length s - token_start L))\<rparr>]"
    using assms(1) False ne by (auto simp: finish_def set_tail_def)
  have "token_start L < length s" using assms(2) False by (simp add: lexer_inv_def)
  then have "strndup s (token_start L) (length s - token_start L) \<noteq> []"
    by (intro strndup_nonempty) simp_all
  then have "good_token ((last (toks L))\<lparr>tvalue := Some (strndup s (token_start L) (length s - token_start L))\<rparr>)"
    by (simp add: good_token_def has_text_def)
  moreover have "list_all good_token (butlast (toks L))" using assms(2) by (simp add: lexer_inv_def)
  ultimately show ?thesis by (simp add: ts)
qed

subsection \<open>Structural tokens of an input without a pipe\<close>





lemma structural_simps [simp]:
  "\<not> structural tok_consumable" "\<not> structural tok_hex" "\<not> structural tok_bin"
  "\<not> structural tok_symbol" "\<not> structural tok_number" "\<not> structural tok_string"
  by (simp_all add: structural_def)

lemma single_char_simps [simp]:
  "\<not> structural (token t) \<Longrightarrow> single_char (t\<lparr>tvalue := v\<rparr>)"
  "\<not> structural tk \<Longrightarrow> single_char (t\<lparr>token := tk\<rparr>)"
  "\<not> structural tk \<Longrightarrow> single_char \<lparr>token = tk, tvalue = v\<rparr>"
  by (simp_all add: single_char_def)












lemma tokenize_good:
  assumes "tokenize str = Returns ts"
  shows "list_all good_token ts"
proof -
  from assms obtain L where
    1: "scan (c_str str) 0 (CHR 0x00) (c_str str) lexer_init = Returns L" and
    2: "finish (c_str str) L = Returns ts"
    by (auto simp: tokenize_def Let_def and_then_Returns)
  have "lexer_inv (length (c_str str)) L"
    using scan_inv[OF 1 lexer_inv_init] by simp
  then show ?thesis using finish_good[OF 2] by simp
qed





section \<open>The grammar rules leave the cursor of a failed attempt alone\<close>

lemma try_parser_None:
  "try_parser a rest = Returns (None, s') \<longleftrightarrow>
     (\<exists>s1. a = Returns (None, s1) \<and> rest s1 = Returns (None, s'))"
  by (auto simp: try_parser_def and_then_Returns split: option.splits)

lemma keepsI: "(\<And>s'. r = Returns (None, s') \<Longrightarrow> s' = s) \<Longrightarrow> keeps s r"
  by (simp add: keeps_def)

lemma keepsD: "keeps s r \<Longrightarrow> r = Returns (None, s') \<Longrightarrow> s' = s"
  by (simp add: keeps_def)

lemma keeps_simps [simp]:
  "keeps s (Returns (None, s')) = (s' = s)"
  "keeps s (Returns (Some x, r))"
  "keeps s (Throws e)"
  "keeps s (Undefined u)"
  "keeps s Out_of_fuel"
  by (auto simp: keeps_def)

lemma keeps_and_then: "(\<And>x. keeps s (f x)) \<Longrightarrow> keeps s (and_then m f)"
  by (auto simp: keeps_def and_then_Returns)

lemma keeps_parse_variable: "keeps s (parse_variable s)"
  unfolding parse_variable_def
  by (auto intro!: keeps_and_then split: list.split)

lemma keeps_parse_value: "keeps s (parse_value s restriction)"
  unfolding parse_value_def
  by (auto intro!: keeps_and_then split: list.split)

lemma keeps_parse_restricted: "keeps s (parse_restricted s)"
  unfolding parse_restricted_def
  by (auto intro!: keeps_and_then split: list.split option.split)

text \<open>
  The rules that work on a copy \<^verbatim>\<open>r\<close> of the cursor write \<^verbatim>\<open>*s\<close> only where they
  succeed.
\<close>

lemma keeps_parse_set: "keeps s (parse_set n s)"
  by (cases n) (auto intro!: keeps_and_then split: list.split option.split)

lemma keeps_parse_parenthesized: "keeps s (parse_parenthesized n s)"
  by (cases n) (auto intro!: keeps_and_then split: list.split option.split)

lemma keeps_post_lhs: "keeps s (parse_tok_binary_expr_post_lhs n s lhs)"
  by (cases n) (auto intro!: keeps_and_then split: list.split option.split)

lemma keeps_parse_tok_binary_expr: "keeps s (parse_tok_binary_expr n s)"
  by (cases n) (auto intro!: keeps_and_then split: list.split option.split)

lemma keeps_parse_csv: "keeps s (parse_csv n s)"
  by (cases n) (auto intro!: keeps_and_then split: list.split option.split)

lemma keeps_parse_fcall: "keeps s (parse_fcall n s)"
  by (cases n) (auto intro!: keeps_and_then split: list.split option.split)

text \<open>
  \<^verbatim>\<open>parse_expr\<close> hands \<^verbatim>\<open>s\<close> itself to one rule after the other: each failed
  attempt must have left it alone for the next one to start at the same token.
\<close>

lemma keeps_parse_expr: "keeps s (parse_expr n s allow_tok_binary allow_set)"
proof (cases n)
  case 0
  then show ?thesis by (simp add: keeps_def)
next
  case (Suc m)
  show ?thesis
  proof (rule keepsI)
    fix s'
    assume "parse_expr n s allow_tok_binary allow_set = Returns (None, s')"
    then obtain s1 s2 s3 s4 s5 s6 s7 where
      1: "(if allow_tok_binary then parse_tok_binary_expr m s else Returns (None, s)) = Returns (None, s1)" and
      2: "(if allow_set then parse_set m s1 else Returns (None, s1)) = Returns (None, s2)" and
      3: "parse_fcall m s2 = Returns (None, s3)" and
      4: "parse_parenthesized m s3 = Returns (None, s4)" and
      5: "parse_variable s4 = Returns (None, s5)" and
      6: "parse_restricted s5 = Returns (None, s6)" and
      7: "parse_value s6 tok_undef = Returns (None, s7)" and
      8: "s' = s7"
      unfolding Suc parse_expr.simps try_parser_None by auto
    have "s1 = s" using 1 keepsD[OF keeps_parse_tok_binary_expr] by (auto split: if_splits)
    moreover have "s2 = s1" using 2 keepsD[OF keeps_parse_set] by (auto split: if_splits)
    moreover have "s3 = s2" using 3 keepsD[OF keeps_parse_fcall] by auto
    moreover have "s4 = s3" using 4 keepsD[OF keeps_parse_parenthesized] by auto
    moreover have "s5 = s4" using 5 keepsD[OF keeps_parse_variable] by auto
    moreover have "s6 = s5" using 6 keepsD[OF keeps_parse_restricted] by auto
    moreover have "s7 = s6" using 7 keepsD[OF keeps_parse_value] by auto
    ultimately show "s' = s" using 8 by simp
  qed
qed

text \<open>
  Claim C7. Whatever the recursion budget, a grammar rule that returns no node
  returns the cursor it was given.
\<close>

theorem no_partial_consumption:
  "(parse_variable s = Returns (None, s') \<longrightarrow> s' = s) \<and>
   (parse_value s restriction = Returns (None, s') \<longrightarrow> s' = s) \<and>
   (parse_restricted s = Returns (None, s') \<longrightarrow> s' = s) \<and>
   (parse_set n s = Returns (None, s') \<longrightarrow> s' = s) \<and>
   (parse_parenthesized n s = Returns (None, s') \<longrightarrow> s' = s) \<and>
   (parse_expr n s allow_tok_binary allow_set = Returns (None, s') \<longrightarrow> s' = s) \<and>
   (parse_tok_binary_expr n s = Returns (None, s') \<longrightarrow> s' = s) \<and>
   (parse_csv n s = Returns (None, s') \<longrightarrow> s' = s) \<and>
   (parse_fcall n s = Returns (None, s') \<longrightarrow> s' = s)"
proof (intro conjI impI)
  show "s' = s" if "parse_variable s = Returns (None, s')"
    using that by (rule keepsD[OF keeps_parse_variable])
  show "s' = s" if "parse_value s restriction = Returns (None, s')"
    using that by (rule keepsD[OF keeps_parse_value])
  show "s' = s" if "parse_restricted s = Returns (None, s')"
    using that by (rule keepsD[OF keeps_parse_restricted])
  show "s' = s" if "parse_set n s = Returns (None, s')"
    using that by (rule keepsD[OF keeps_parse_set])
  show "s' = s" if "parse_parenthesized n s = Returns (None, s')"
    using that by (rule keepsD[OF keeps_parse_parenthesized])
  show "s' = s" if "parse_expr n s allow_tok_binary allow_set = Returns (None, s')"
    using that by (rule keepsD[OF keeps_parse_expr])
  show "s' = s" if "parse_tok_binary_expr n s = Returns (None, s')"
    using that by (rule keepsD[OF keeps_parse_tok_binary_expr])
  show "s' = s" if "parse_csv n s = Returns (None, s')"
    using that by (rule keepsD[OF keeps_parse_csv])
  show "s' = s" if "parse_fcall n s = Returns (None, s')"
    using that by (rule keepsD[OF keeps_parse_fcall])
qed

text \<open>
  The theorem at the cursor on a lone \<^verbatim>\<open>)\<close>, where all nine rules fail, and at three
  rules that fail after they have read further: \<^verbatim>\<open>parse_set\<close> on \<^verbatim>\<open>a = )\<close>,
  \<^verbatim>\<open>parse_parenthesized\<close> on \<^verbatim>\<open>( a\<close> and \<^verbatim>\<open>parse_fcall\<close> on \<^verbatim>\<open>f ( a\<close>.
\<close>

theorem no_partial_consumption_witness:
  "parse_variable [\<lparr>token = tok_rparen, tvalue = Some '')''\<rparr>] =
     Returns (None, [\<lparr>token = tok_rparen, tvalue = Some '')''\<rparr>]) \<and>
   parse_value [\<lparr>token = tok_rparen, tvalue = Some '')''\<rparr>] tok_undef =
     Returns (None, [\<lparr>token = tok_rparen, tvalue = Some '')''\<rparr>]) \<and>
   parse_restricted [\<lparr>token = tok_rparen, tvalue = Some '')''\<rparr>] =
     Returns (None, [\<lparr>token = tok_rparen, tvalue = Some '')''\<rparr>]) \<and>
   parse_set 6 [\<lparr>token = tok_rparen, tvalue = Some '')''\<rparr>] =
     Returns (None, [\<lparr>token = tok_rparen, tvalue = Some '')''\<rparr>]) \<and>
   parse_parenthesized 6 [\<lparr>token = tok_rparen, tvalue = Some '')''\<rparr>] =
     Returns (None, [\<lparr>token = tok_rparen, tvalue = Some '')''\<rparr>]) \<and>
   parse_expr 6 [\<lparr>token = tok_rparen, tvalue = Some '')''\<rparr>] True True =
     Returns (None, [\<lparr>token = tok_rparen, tvalue = Some '')''\<rparr>]) \<and>
   parse_tok_binary_expr 6 [\<lparr>token = tok_rparen, tvalue = Some '')''\<rparr>] =
     Returns (None, [\<lparr>token = tok_rparen, tvalue = Some '')''\<rparr>]) \<and>
   parse_csv 6 [\<lparr>token = tok_rparen, tvalue = Some '')''\<rparr>] =
     Returns (None, [\<lparr>token = tok_rparen, tvalue = Some '')''\<rparr>]) \<and>
   parse_fcall 6 [\<lparr>token = tok_rparen, tvalue = Some '')''\<rparr>] =
     Returns (None, [\<lparr>token = tok_rparen, tvalue = Some '')''\<rparr>]) \<and>
   parse_set 12 [\<lparr>token = tok_symbol, tvalue = Some ''a''\<rparr>,
                 \<lparr>token = tok_equal, tvalue = Some ''=''\<rparr>,
                 \<lparr>token = tok_rparen, tvalue = Some '')''\<rparr>] =
     Returns (None, [\<lparr>token = tok_symbol, tvalue = Some ''a''\<rparr>,
                     \<lparr>token = tok_equal, tvalue = Some ''=''\<rparr>,
                     \<lparr>token = tok_rparen, tvalue = Some '')''\<rparr>]) \<and>
   parse_parenthesized 12 [\<lparr>token = tok_lparen, tvalue = Some ''(''\<rparr>,
                           \<lparr>token = tok_symbol, tvalue = Some ''a''\<rparr>] =
     Returns (None, [\<lparr>token = tok_lparen, tvalue = Some ''(''\<rparr>,
                     \<lparr>token = tok_symbol, tvalue = Some ''a''\<rparr>]) \<and>
   parse_fcall 12 [\<lparr>token = tok_symbol, tvalue = Some ''f''\<rparr>,
                   \<lparr>token = tok_lparen, tvalue = Some ''(''\<rparr>,
                   \<lparr>token = tok_symbol, tvalue = Some ''a''\<rparr>] =
     Returns (None, [\<lparr>token = tok_symbol, tvalue = Some ''f''\<rparr>,
                     \<lparr>token = tok_lparen, tvalue = Some ''(''\<rparr>,
                     \<lparr>token = tok_symbol, tvalue = Some ''a''\<rparr>])"
proof -
  let ?s = "[\<lparr>token = tok_rparen, tvalue = Some '')''\<rparr>]"
  let ?a = "[\<lparr>token = tok_symbol, tvalue = Some ''a''\<rparr>,
             \<lparr>token = tok_equal, tvalue = Some ''=''\<rparr>,
             \<lparr>token = tok_rparen, tvalue = Some '')''\<rparr>]"
  let ?b = "[\<lparr>token = tok_lparen, tvalue = Some ''(''\<rparr>,
             \<lparr>token = tok_symbol, tvalue = Some ''a''\<rparr>]"
  let ?c = "[\<lparr>token = tok_symbol, tvalue = Some ''f''\<rparr>,
             \<lparr>token = tok_lparen, tvalue = Some ''(''\<rparr>,
             \<lparr>token = tok_symbol, tvalue = Some ''a''\<rparr>]"
  have none: "\<And>r. (case r of Returns (None, s') \<Rightarrow> True | _ \<Rightarrow> False) \<Longrightarrow>
                 \<exists>s'. r = Returns (None, s')"
    by (auto split: result.splits option.splits)
  have "\<exists>s'. parse_variable ?s = Returns (None, s')" by (rule none) code_simp
  then obtain r1 where r1: "parse_variable ?s = Returns (None, r1)" by blast
  have "\<exists>s'. parse_value ?s tok_undef = Returns (None, s')" by (rule none) code_simp
  then obtain r2 where r2: "parse_value ?s tok_undef = Returns (None, r2)" by blast
  have "\<exists>s'. parse_restricted ?s = Returns (None, s')" by (rule none) code_simp
  then obtain r3 where r3: "parse_restricted ?s = Returns (None, r3)" by blast
  have "\<exists>s'. parse_set 6 ?s = Returns (None, s')" by (rule none) code_simp
  then obtain r4 where r4: "parse_set 6 ?s = Returns (None, r4)" by blast
  have "\<exists>s'. parse_parenthesized 6 ?s = Returns (None, s')" by (rule none) code_simp
  then obtain r5 where r5: "parse_parenthesized 6 ?s = Returns (None, r5)" by blast
  have "\<exists>s'. parse_expr 6 ?s True True = Returns (None, s')" by (rule none) code_simp
  then obtain r6 where r6: "parse_expr 6 ?s True True = Returns (None, r6)" by blast
  have "\<exists>s'. parse_tok_binary_expr 6 ?s = Returns (None, s')" by (rule none) code_simp
  then obtain r7 where r7: "parse_tok_binary_expr 6 ?s = Returns (None, r7)" by blast
  have "\<exists>s'. parse_csv 6 ?s = Returns (None, s')" by (rule none) code_simp
  then obtain r8 where r8: "parse_csv 6 ?s = Returns (None, r8)" by blast
  have "\<exists>s'. parse_fcall 6 ?s = Returns (None, s')" by (rule none) code_simp
  then obtain r9 where r9: "parse_fcall 6 ?s = Returns (None, r9)" by blast
  have "\<exists>s'. parse_set 12 ?a = Returns (None, s')" by (rule none) code_simp
  then obtain q1 where q1: "parse_set 12 ?a = Returns (None, q1)" by blast
  have "\<exists>s'. parse_parenthesized 12 ?b = Returns (None, s')" by (rule none) code_simp
  then obtain q2 where q2: "parse_parenthesized 12 ?b = Returns (None, q2)" by blast
  have "\<exists>s'. parse_fcall 12 ?c = Returns (None, s')" by (rule none) code_simp
  then obtain q3 where q3: "parse_fcall 12 ?c = Returns (None, q3)" by blast
  have "r1 = ?s" using r1 no_partial_consumption[of ?s r1] by blast
  moreover have "r2 = ?s" using r2 no_partial_consumption[of ?s r2 tok_undef] by blast
  moreover have "r3 = ?s" using r3 no_partial_consumption[of ?s r3] by blast
  moreover have "r4 = ?s" using r4 no_partial_consumption[of ?s r4 _ 6] by blast
  moreover have "r5 = ?s" using r5 no_partial_consumption[of ?s r5 _ 6] by blast
  moreover have "r6 = ?s" using r6 no_partial_consumption[of ?s r6 _ 6 True True] by blast
  moreover have "r7 = ?s" using r7 no_partial_consumption[of ?s r7 _ 6] by blast
  moreover have "r8 = ?s" using r8 no_partial_consumption[of ?s r8 _ 6] by blast
  moreover have "r9 = ?s" using r9 no_partial_consumption[of ?s r9 _ 6] by blast
  moreover have "q1 = ?a" using q1 no_partial_consumption[of ?a q1 _ 12] by blast
  moreover have "q2 = ?b" using q2 no_partial_consumption[of ?b q2 _ 12] by blast
  moreover have "q3 = ?c" using q3 no_partial_consumption[of ?c q3 _ 12] by blast
  ultimately show ?thesis using r1 r2 r3 r4 r5 r6 r7 r8 r9 q1 q2 q3 by simp
qed

section \<open>The parser on the inputs of the specification\<close>

text \<open>
  Claim C6. \<^verbatim>\<open>treeify\<close> passes its argument to \<^verbatim>\<open>parse_expr\<close> without a test, and the
  first rule tried reads \<^verbatim>\<open>r->token\<close>: on the empty token sequence, which is what
  \<^verbatim>\<open>tokenize\<close> returns for the empty string, this is a read through a null pointer,
  neither a tree nor an exception. The two examples of the claim do throw.
\<close>

theorem treeify_empty:
  "tokenize [] = Returns [] \<and>
   treeify [] = Undefined Null_dereference \<and>
   treeify [\<lparr>token = tok_lparen, tvalue = Some ''(''\<rparr>,
            \<lparr>token = tok_symbol, tvalue = Some ''a''\<rparr>,
            \<lparr>token = tok_plus, tvalue = Some ''+''\<rparr>,
            \<lparr>token = tok_symbol, tvalue = Some ''b''\<rparr>] =
     Throws (Treeify_failure (Some ''('')) \<and>
   and_then (tokenize ''a + b )'') treeify = Throws (Treeify_failure (Some '')''))"
  by code_simp

text \<open>
  Claim C3. \<^verbatim>\<open>parse_fcall\<close> builds the node of \<^verbatim>\<open>func()\<close> with a null argument list
  ("may be null, for case function() (0 args)"), and \<^verbatim>\<open>call_t::eval\<close> calls
  \<^verbatim>\<open>args->list_eval(ct)\<close> and reads \<^verbatim>\<open>args->values\<close> through that null pointer: no
  \<^verbatim>\<open>fcall\<close> is made.
\<close>

theorem fcall_without_arguments:
  "and_then (tokenize ''func()'') treeify = Returns (Some (call_t ''func'' None)) \<and>
   eval ord ct (call_t ''func'' None) h = Undefined Null_dereference"
proof
  show "and_then (tokenize ''func()'') treeify = Returns (Some (call_t ''func'' None))"
    by code_simp
  show "eval ord ct (call_t ''func'' None) h = Undefined Null_dereference"
    by simp
qed

section \<open>The recursion budget of the grammar rules\<close>

subsection \<open>A rule never returns a longer cursor\<close>

lemma shrinks_simps [simp]:
  "shrinks k (Returns (x, s')) = (length s' \<le> k)"
  "shrinks k (Throws e)"
  "shrinks k (Undefined u)"
  "shrinks k Out_of_fuel"
  by (auto simp: shrinks_def)

lemma shrinksD: "shrinks k r \<Longrightarrow> r = Returns (x, s') \<Longrightarrow> length s' \<le> k"
  by (simp add: shrinks_def)

lemma shrinks_and_then:
  "(\<And>x. m = Returns x \<Longrightarrow> shrinks k (f x)) \<Longrightarrow> shrinks k (and_then m f)"
  by (auto simp: shrinks_def and_then_Returns)

lemma shrinks_try:
  "shrinks k a \<Longrightarrow> (\<And>s1. length s1 \<le> k \<Longrightarrow> shrinks k (rest s1)) \<Longrightarrow>
   shrinks k (try_parser a rest)"
  unfolding try_parser_def
  by (rule shrinks_and_then) (auto split: option.split dest: shrinksD)

lemma shrinks_parse_variable: "shrinks (length s) (parse_variable s)"
  unfolding parse_variable_def
  by (auto intro!: shrinks_and_then split: list.split)

lemma shrinks_parse_value: "shrinks (length s) (parse_value s restriction)"
  unfolding parse_value_def
  by (auto intro!: shrinks_and_then split: list.split)

lemma shrinks_parse_restricted: "shrinks (length s) (parse_restricted s)"
  unfolding parse_restricted_def
  by (auto intro!: shrinks_and_then split: list.split option.split
           dest!: shrinksD[OF shrinks_parse_value])

lemma shrinks_set_step:
  assumes "\<And>s ab as. shrinks (length s) (parse_expr n s ab as)"
  shows "shrinks (length s) (parse_set (Suc n) s)"
  by (auto intro!: shrinks_and_then split: list.split option.split
           dest!: shrinksD[OF shrinks_parse_variable] shrinksD[OF assms])

lemma shrinks_paren_step:
  assumes "\<And>s ab as. shrinks (length s) (parse_expr n s ab as)"
  shows "shrinks (length s) (parse_parenthesized (Suc n) s)"
  by (auto intro!: shrinks_and_then split: list.split option.split
           dest!: shrinksD[OF assms])

lemma shrinks_post_step:
  assumes "\<And>s ab as. shrinks (length s) (parse_expr n s ab as)"
  shows "shrinks (length s) (parse_tok_binary_expr_post_lhs (Suc n) s lhs)"
  by (auto intro!: shrinks_and_then split: list.split option.split
           dest!: shrinksD[OF assms])

lemma shrinks_binary_step:
  assumes "\<And>s ab as. shrinks (length s) (parse_expr n s ab as)"
    "\<And>s lhs. shrinks (length s) (parse_tok_binary_expr_post_lhs n s lhs)"
  shows "shrinks (length s) (parse_tok_binary_expr (Suc n) s)"
  by (auto intro!: shrinks_and_then split: list.split option.split
           dest!: shrinksD[OF assms(1)] shrinksD[OF assms(2)])

lemma shrinks_loop_step:
  assumes "\<And>s ab as. shrinks (length s) (parse_expr n s ab as)"
    "\<And>r vals. shrinks (length r) (parse_csv_loop n r vals)"
  shows "shrinks (length r) (parse_csv_loop (Suc n) r vals)"
proof -
  have "shrinks (length r) (parse_csv_loop n r' vals')" if "length r' \<le> length r" for r' vals'
    using assms(2)[of r' vals'] that by (auto simp: shrinks_def)
  then show ?thesis
    by (auto intro!: shrinks_and_then split: list.split option.split
           dest!: shrinksD[OF assms(1)])
qed

lemma shrinks_csv_step:
  assumes "\<And>r vals. shrinks (length r) (parse_csv_loop n r vals)"
  shows "shrinks (length s) (parse_csv (Suc n) s)"
  by (auto intro!: shrinks_and_then dest!: shrinksD[OF assms])

lemma shrinks_fcall_step:
  assumes "\<And>s. shrinks (length s) (parse_csv n s)"
  shows "shrinks (length s) (parse_fcall (Suc n) s)"
  by (auto intro!: shrinks_and_then split: list.split option.split
           dest!: shrinksD[OF assms])

lemma shrinks_at_most: "shrinks (length s1) r \<Longrightarrow> length s1 \<le> k \<Longrightarrow> shrinks k r"
  by (auto simp: shrinks_def)

lemma shrinks_expr_step:
  assumes "\<And>s. shrinks (length s) (parse_tok_binary_expr n s)"
    "\<And>s. shrinks (length s) (parse_set n s)"
    "\<And>s. shrinks (length s) (parse_fcall n s)"
    "\<And>s. shrinks (length s) (parse_parenthesized n s)"
  shows "shrinks (length s) (parse_expr (Suc n) s ab as)"
  unfolding parse_expr.simps
  by (intro shrinks_try) 
     (auto intro: shrinks_at_most[OF assms(1)] shrinks_at_most[OF assms(2)]
        shrinks_at_most[OF assms(3)] shrinks_at_most[OF assms(4)]
        shrinks_at_most[OF shrinks_parse_variable] shrinks_at_most[OF shrinks_parse_restricted]
        shrinks_at_most[OF shrinks_parse_value])

lemma shrinks_all:
  "(\<forall>s ab as. shrinks (length s) (parse_expr n s ab as)) \<and>
   (\<forall>s. shrinks (length s) (parse_set n s)) \<and>
   (\<forall>s. shrinks (length s) (parse_parenthesized n s)) \<and>
   (\<forall>s lhs. shrinks (length s) (parse_tok_binary_expr_post_lhs n s lhs)) \<and>
   (\<forall>s. shrinks (length s) (parse_tok_binary_expr n s)) \<and>
   (\<forall>r vals. shrinks (length r) (parse_csv_loop n r vals)) \<and>
   (\<forall>s. shrinks (length s) (parse_csv n s)) \<and>
   (\<forall>s. shrinks (length s) (parse_fcall n s))"
proof (induction n)
  case 0
  show ?case by simp
next
  case (Suc n)
  then show ?case
    by (intro conjI allI shrinks_expr_step shrinks_set_step shrinks_paren_step shrinks_post_step
          shrinks_binary_step shrinks_loop_step shrinks_csv_step shrinks_fcall_step) blast+
qed

lemma shrinks_parse_expr: "shrinks (length s) (parse_expr n s ab as)"
  using shrinks_all[of n] by blast

subsection \<open>A budget of four per token is enough\<close>

lemma funded_simps [simp]:
  "funded (Returns x)" "funded (Throws e)" "funded (Undefined u)" "\<not> funded Out_of_fuel"
  by (simp_all add: funded_def)

lemma fuel_and_then:
  "funded m \<Longrightarrow> (\<And>x. m = Returns x \<Longrightarrow> funded (f x)) \<Longrightarrow> funded (and_then m f)"
  by (cases m) simp_all

lemma fuel_try:
  "funded a \<Longrightarrow> (\<And>s1. a = Returns (None, s1) \<Longrightarrow> funded (rest s1)) \<Longrightarrow>
   funded (try_parser a rest)"
  unfolding try_parser_def
  by (rule fuel_and_then) (auto split: option.split)

lemma fuel_string_of: "funded (string_of v)"
  by (simp add: string_of_def split: option.split)

lemma fuel_new_value_t: "funded (new_value_t ty v r)"
  by (simp add: new_value_t_def)

lemma fuel_parse_variable: "funded (parse_variable s)"
  by (auto simp: parse_variable_def intro!: fuel_and_then fuel_string_of split: list.split)

lemma fuel_parse_value: "funded (parse_value s restriction)"
  by (auto simp: parse_value_def intro!: fuel_and_then fuel_new_value_t fuel_string_of
           split: list.split)

lemma fuel_parse_restricted: "funded (parse_restricted s)"
  by (auto simp: parse_restricted_def intro!: fuel_and_then fuel_new_value_t fuel_parse_value
           split: list.split option.split)

lemma fuel_post_step:
  assumes E: "\<And>s ab as. 4 * length s + (if ab then 4 else 2) \<le> n \<Longrightarrow>
                funded (parse_expr n s ab as)"
    and "4 * length s + 1 \<le> Suc n"
  shows "funded (parse_tok_binary_expr_post_lhs (Suc n) s lhs)"
  using assms(2)
  by (auto intro!: fuel_and_then E split: list.split option.split)

lemma fuel_paren_step:
  assumes E: "\<And>s ab as. 4 * length s + (if ab then 4 else 2) \<le> n \<Longrightarrow>
                funded (parse_expr n s ab as)"
    and "4 * length s + 1 \<le> Suc n"
  shows "funded (parse_parenthesized (Suc n) s)"
  using assms(2)
  by (auto intro!: fuel_and_then E split: list.split option.split)

lemma fuel_set_step:
  assumes E: "\<And>s ab as. 4 * length s + (if ab then 4 else 2) \<le> n \<Longrightarrow>
                funded (parse_expr n s ab as)"
    and "4 * length s + 1 \<le> Suc n"
  shows "funded (parse_set (Suc n) s)"
proof -
  have "funded (parse_expr n nxt True False)"
    if "parse_variable s = Returns (Some v, t # nxt)" for v t nxt
  proof -
    have "length (t # nxt) \<le> length s" using shrinksD[OF shrinks_parse_variable that] .
    then show ?thesis using assms(2) by (intro E) simp
  qed
  then show ?thesis
    by (auto intro!: fuel_and_then fuel_parse_variable split: list.split option.split)
qed

lemma fuel_binary_step:
  assumes E: "\<And>s ab as. 4 * length s + (if ab then 4 else 2) \<le> n \<Longrightarrow>
                funded (parse_expr n s ab as)"
    and P: "\<And>s lhs. 4 * length s + 1 \<le> n \<Longrightarrow>
                funded (parse_tok_binary_expr_post_lhs n s lhs)"
    and "4 * length s + 3 \<le> Suc n"
  shows "funded (parse_tok_binary_expr (Suc n) s)"
proof -
  have 1: "funded (parse_expr n s False False)" using assms(3) by (intro E) simp
  have 2: "funded (parse_tok_binary_expr_post_lhs n r lhs)"
    if "parse_expr n s False False = Returns (x, r)" for x r lhs
  proof -
    have "length r \<le> length s" using shrinksD[OF shrinks_parse_expr that] .
    then show ?thesis using assms(3) by (intro P) simp
  qed
  show ?thesis using 1 2
    by (auto intro!: fuel_and_then split: list.split option.split)
qed

lemma fuel_loop_step:
  assumes E: "\<And>s ab as. 4 * length s + (if ab then 4 else 2) \<le> n \<Longrightarrow>
                funded (parse_expr n s ab as)"
    and L: "\<And>r vals. 4 * length r + 5 \<le> n \<Longrightarrow> funded (parse_csv_loop n r vals)"
    and "4 * length r + 5 \<le> Suc n"
  shows "funded (parse_csv_loop (Suc n) r vals)"
proof -
  have 1: "funded (parse_expr n r True False)" using assms(3) by (intro E) simp
  have 2: "funded (parse_csv_loop n r' vals')"
    if "parse_expr n r True False = Returns (x, t # r')" for x t r' vals'
  proof -
    have "length (t # r') \<le> length r" using shrinksD[OF shrinks_parse_expr that] .
    then show ?thesis using assms(3) by (intro L) simp
  qed
  show ?thesis using 1 2
    by (auto intro!: fuel_and_then split: list.split option.split)
qed

lemma fuel_csv_step:
  assumes L: "\<And>r vals. 4 * length r + 5 \<le> n \<Longrightarrow> funded (parse_csv_loop n r vals)"
    and "4 * length s + 6 \<le> Suc n"
  shows "funded (parse_csv (Suc n) s)"
  using assms(2) by (auto intro!: fuel_and_then L)

lemma fuel_fcall_step:
  assumes C: "\<And>s. 4 * length s + 6 \<le> n \<Longrightarrow> funded (parse_csv n s)"
    and "4 * length s + 1 \<le> Suc n"
  shows "funded (parse_fcall (Suc n) s)"
  using assms(2)
  by (auto intro!: fuel_and_then fuel_string_of C split: list.split option.split)

lemma fuel_expr_step:
  assumes B: "\<And>s. 4 * length s + 3 \<le> n \<Longrightarrow> funded (parse_tok_binary_expr n s)"
    and S: "\<And>s. 4 * length s + 1 \<le> n \<Longrightarrow> funded (parse_set n s)"
    and F: "\<And>s. 4 * length s + 1 \<le> n \<Longrightarrow> funded (parse_fcall n s)"
    and P: "\<And>s. 4 * length s + 1 \<le> n \<Longrightarrow> funded (parse_parenthesized n s)"
    and "4 * length s + (if ab then 4 else 2) \<le> Suc n"
  shows "funded (parse_expr (Suc n) s ab as)"
  unfolding parse_expr.simps
proof (intro fuel_try)
  show "funded ((if ab then parse_tok_binary_expr n s else Returns (None, s)))"
    using assms(5) by (auto intro!: B)
next
  fix s1 assume "(if ab then parse_tok_binary_expr n s else Returns (None, s)) = Returns (None, s1)"
  then have s1: "s1 = s" using keepsD[OF keeps_parse_tok_binary_expr] by (auto split: if_splits)
  show "funded ((if as then parse_set n s1 else Returns (None, s1)))"
    using assms(5) unfolding s1 by (auto intro!: S split: if_splits)
  fix s2 assume "(if as then parse_set n s1 else Returns (None, s1)) = Returns (None, s2)"
  then have s2: "s2 = s" using keepsD[OF keeps_parse_set] s1 by (auto split: if_splits)
  show "funded (parse_fcall n s2)"
    using assms(5) unfolding s2 by (auto intro!: F split: if_splits)
  fix s3 assume "parse_fcall n s2 = Returns (None, s3)"
  then have s3: "s3 = s" using keepsD[OF keeps_parse_fcall] s2 by auto
  show "funded (parse_parenthesized n s3)"
    using assms(5) unfolding s3 by (auto intro!: P split: if_splits)
  fix s4 s5 s6 s7 :: "token_t list"
  show "funded (parse_variable s4)" by (rule fuel_parse_variable)
  show "funded (parse_restricted s5)" by (rule fuel_parse_restricted)
  show "funded (parse_value s6 tok_undef)" by (rule fuel_parse_value)
  show "funded (Returns (None, s7))" by simp
qed

lemma fuel_all:
  "(\<forall>s ab as. 4 * length s + (if ab then 4 else 2) \<le> n \<longrightarrow>
       funded (parse_expr n s ab as)) \<and>
   (\<forall>s. 4 * length s + 1 \<le> n \<longrightarrow> funded (parse_set n s)) \<and>
   (\<forall>s. 4 * length s + 1 \<le> n \<longrightarrow> funded (parse_parenthesized n s)) \<and>
   (\<forall>s lhs. 4 * length s + 1 \<le> n \<longrightarrow>
       funded (parse_tok_binary_expr_post_lhs n s lhs)) \<and>
   (\<forall>s. 4 * length s + 3 \<le> n \<longrightarrow> funded (parse_tok_binary_expr n s)) \<and>
   (\<forall>r vals. 4 * length r + 5 \<le> n \<longrightarrow> funded (parse_csv_loop n r vals)) \<and>
   (\<forall>s. 4 * length s + 6 \<le> n \<longrightarrow> funded (parse_csv n s)) \<and>
   (\<forall>s. 4 * length s + 1 \<le> n \<longrightarrow> funded (parse_fcall n s))"
proof (induction n)
  case 0
  show ?case by simp
next
  case (Suc n)
  then have E: "\<And>s ab as. 4 * length s + (if ab then 4 else 2) \<le> n \<Longrightarrow>
                funded (parse_expr n s ab as)"
    and S: "\<And>s. 4 * length s + 1 \<le> n \<Longrightarrow> funded (parse_set n s)"
    and P: "\<And>s. 4 * length s + 1 \<le> n \<Longrightarrow> funded (parse_parenthesized n s)"
    and O: "\<And>s lhs. 4 * length s + 1 \<le> n \<Longrightarrow>
                funded (parse_tok_binary_expr_post_lhs n s lhs)"
    and B: "\<And>s. 4 * length s + 3 \<le> n \<Longrightarrow> funded (parse_tok_binary_expr n s)"
    and L: "\<And>r vals. 4 * length r + 5 \<le> n \<Longrightarrow> funded (parse_csv_loop n r vals)"
    and C: "\<And>s. 4 * length s + 6 \<le> n \<Longrightarrow> funded (parse_csv n s)"
    and F: "\<And>s. 4 * length s + 1 \<le> n \<Longrightarrow> funded (parse_fcall n s)"
    by blast+
  show ?case
  proof (intro conjI allI impI)
    fix s :: "token_t list" and ab as :: bool and lhs :: st and vals :: "st list"
    show "funded (parse_expr (Suc n) s ab as)"
      if "4 * length s + (if ab then 4 else 2) \<le> Suc n"
      using B S F P that by (rule fuel_expr_step)
    show "funded (parse_set (Suc n) s)" if "4 * length s + 1 \<le> Suc n"
      using E that by (rule fuel_set_step)
    show "funded (parse_parenthesized (Suc n) s)" if "4 * length s + 1 \<le> Suc n"
      using E that by (rule fuel_paren_step)
    show "funded (parse_tok_binary_expr_post_lhs (Suc n) s lhs)" if "4 * length s + 1 \<le> Suc n"
      using E that by (rule fuel_post_step)
    show "funded (parse_tok_binary_expr (Suc n) s)" if "4 * length s + 3 \<le> Suc n"
      using E O that by (rule fuel_binary_step)
    show "funded (parse_csv_loop (Suc n) s vals)" if "4 * length s + 5 \<le> Suc n"
      using E L that by (rule fuel_loop_step)
    show "funded (parse_csv (Suc n) s)" if "4 * length s + 6 \<le> Suc n"
      using L that by (rule fuel_csv_step)
    show "funded (parse_fcall (Suc n) s)" if "4 * length s + 1 \<le> Suc n"
      using C that by (rule fuel_fcall_step)
  qed
qed

lemma parse_expr_enough_fuel:
  "4 * length s + 4 \<le> n \<Longrightarrow> funded (parse_expr n s ab as)"
  using fuel_all[of n] by (cases ab) auto

lemma treeify_total: "treeify tokens \<noteq> Out_of_fuel"
proof -
  have "funded (treeify tokens)"
    unfolding treeify_def treeify_fuel_def
    by (rule fuel_and_then) (auto intro: parse_expr_enough_fuel split: list.split)
  then show ?thesis by (simp add: funded_def)
qed

subsection \<open>A larger budget changes nothing\<close>

lemma settled_refl [simp]: "settled r r"
  by (simp add: settled_def)

lemma settled_out [simp]: "settled Out_of_fuel r"
  by (simp add: settled_def)

lemma settled_and_then:
  "settled m m' \<Longrightarrow> (\<And>x. settled (f x) (f' x)) \<Longrightarrow> settled (and_then m f) (and_then m' f')"
  by (cases m) (auto simp: settled_def)

lemma settled_try:
  "settled a a' \<Longrightarrow> (\<And>s. settled (rest s) (rest' s)) \<Longrightarrow>
   settled (try_parser a rest) (try_parser a' rest')"
  unfolding try_parser_def
  by (rule settled_and_then) (auto split: option.split)

lemmas rule_simps =
  parse_expr.simps parse_set.simps parse_parenthesized.simps
  parse_tok_binary_expr_post_lhs.simps parse_tok_binary_expr.simps parse_csv_loop.simps
  parse_csv.simps parse_fcall.simps

lemma settled_all:
  "(\<forall>s ab as. settled (parse_expr n s ab as) (parse_expr (Suc n) s ab as)) \<and>
   (\<forall>s. settled (parse_set n s) (parse_set (Suc n) s)) \<and>
   (\<forall>s. settled (parse_parenthesized n s) (parse_parenthesized (Suc n) s)) \<and>
   (\<forall>s lhs. settled (parse_tok_binary_expr_post_lhs n s lhs)
                     (parse_tok_binary_expr_post_lhs (Suc n) s lhs)) \<and>
   (\<forall>s. settled (parse_tok_binary_expr n s) (parse_tok_binary_expr (Suc n) s)) \<and>
   (\<forall>r vals. settled (parse_csv_loop n r vals) (parse_csv_loop (Suc n) r vals)) \<and>
   (\<forall>s. settled (parse_csv n s) (parse_csv (Suc n) s)) \<and>
   (\<forall>s. settled (parse_fcall n s) (parse_fcall (Suc n) s))"
proof (induction n)
  case 0
  show ?case by simp
next
  case (Suc n)
  then have E: "\<And>s ab as. settled (parse_expr n s ab as) (parse_expr (Suc n) s ab as)"
    and S: "\<And>s. settled (parse_set n s) (parse_set (Suc n) s)"
    and P: "\<And>s. settled (parse_parenthesized n s) (parse_parenthesized (Suc n) s)"
    and O: "\<And>s lhs. settled (parse_tok_binary_expr_post_lhs n s lhs)
                     (parse_tok_binary_expr_post_lhs (Suc n) s lhs)"
    and B: "\<And>s. settled (parse_tok_binary_expr n s) (parse_tok_binary_expr (Suc n) s)"
    and L: "\<And>r vals. settled (parse_csv_loop n r vals) (parse_csv_loop (Suc n) r vals)"
    and C: "\<And>s. settled (parse_csv n s) (parse_csv (Suc n) s)"
    and F: "\<And>s. settled (parse_fcall n s) (parse_fcall (Suc n) s)"
    by blast+
  show ?case
  proof (intro conjI allI)
    fix s :: "token_t list" and ab as :: bool and lhs :: st and vals :: "st list"
    show "settled (parse_expr (Suc n) s ab as) (parse_expr (Suc (Suc n)) s ab as)"
      apply (subst parse_expr.simps(2)[of n])
      apply (subst parse_expr.simps(2)[of "Suc n"])
      apply (intro settled_try)
      apply (auto intro: B S F P simp del: rule_simps)
      done
    show "settled (parse_set (Suc n) s) (parse_set (Suc (Suc n)) s)"
      apply (subst parse_set.simps(2)[of n])
      apply (subst parse_set.simps(2)[of "Suc n"])
      apply (auto intro!: settled_and_then E split: option.split list.split simp del: rule_simps)
      done
    show "settled (parse_parenthesized (Suc n) s) (parse_parenthesized (Suc (Suc n)) s)"
      apply (subst parse_parenthesized.simps(2)[of n])
      apply (subst parse_parenthesized.simps(2)[of "Suc n"])
      apply (auto intro!: settled_and_then E split: option.split list.split simp del: rule_simps)
      done
    show "settled (parse_tok_binary_expr_post_lhs (Suc n) s lhs)
            (parse_tok_binary_expr_post_lhs (Suc (Suc n)) s lhs)"
      apply (subst parse_tok_binary_expr_post_lhs.simps(2)[of n])
      apply (subst parse_tok_binary_expr_post_lhs.simps(2)[of "Suc n"])
      apply (auto intro!: settled_and_then E split: option.split list.split simp del: rule_simps)
      done
    show "settled (parse_tok_binary_expr (Suc n) s) (parse_tok_binary_expr (Suc (Suc n)) s)"
      apply (subst parse_tok_binary_expr.simps(2)[of n])
      apply (subst parse_tok_binary_expr.simps(2)[of "Suc n"])
      apply (auto intro!: settled_and_then E O split: option.split list.split simp del: rule_simps)
      done
    show "settled (parse_csv_loop (Suc n) s vals) (parse_csv_loop (Suc (Suc n)) s vals)"
      apply (subst parse_csv_loop.simps(2)[of n])
      apply (subst parse_csv_loop.simps(2)[of "Suc n"])
      apply (auto intro!: settled_and_then E L split: option.split list.split simp del: rule_simps)
      done
    show "settled (parse_csv (Suc n) s) (parse_csv (Suc (Suc n)) s)"
      apply (subst parse_csv.simps(2)[of n])
      apply (subst parse_csv.simps(2)[of "Suc n"])
      apply (auto intro!: settled_and_then L simp del: rule_simps)
      done
    show "settled (parse_fcall (Suc n) s) (parse_fcall (Suc (Suc n)) s)"
      apply (subst parse_fcall.simps(2)[of n])
      apply (subst parse_fcall.simps(2)[of "Suc n"])
      apply (auto intro!: settled_and_then C split: option.split list.split simp del: rule_simps)
      done
  qed
qed

lemma parse_expr_more_fuel:
  "funded (parse_expr n s ab as) \<Longrightarrow> parse_expr (n + k) s ab as = parse_expr n s ab as"
proof (induction k)
  case 0
  show ?case by simp
next
  case (Suc k)
  have "settled (parse_expr (n + k) s ab as) (parse_expr (Suc (n + k)) s ab as)"
    using settled_all[of "n + k"] by blast
  then show ?case using Suc by (auto simp: settled_def funded_def)
qed

text \<open>With the budget of \<open>treeify\<close> or more, the result is that of \<open>treeify\<close>.\<close>

lemma treeify_fuel_enough:
  assumes "4 * length tokens + 4 \<le> n"
  shows "treeify_fuel n tokens = treeify tokens"
proof -
  obtain k where n: "n = (4 * length tokens + 4) + k" using assms le_Suc_ex by blast
  have "funded (parse_expr (4 * length tokens + 4) tokens True True)"
    by (rule parse_expr_enough_fuel) simp
  then have "parse_expr n tokens True True = parse_expr (4 * length tokens + 4) tokens True True"
    unfolding n by (rule parse_expr_more_fuel)
  then show ?thesis by (simp add: treeify_def treeify_fuel_def)
qed

subsection \<open>No fault on a chain of tokens that is not empty\<close>

text \<open>
  The rules read the text of symbols, numbers and strings only, and the cursor of a
  rule only moves along the chain it was given. So on a chain that is not empty and
  whose symbols, numbers and strings have a text, no rule reads through a null
  pointer and no rule throws.
\<close>

lemma fine_simps [simp]:
  "fine (Returns x)" "fine Out_of_fuel" "\<not> fine (Throws e)" "\<not> fine (Undefined u)"
  by (simp_all add: fine_def)

lemma sound_simps [simp]:
  "sound s (Returns (x, s')) = (set s' \<subseteq> set s)"
  "sound s Out_of_fuel"
  "\<not> sound s (Throws e)"
  "\<not> sound s (Undefined u)"
  by (auto simp: sound_def)

lemma sound_fine: "sound s r \<Longrightarrow> fine r"
  by (simp add: sound_def)

lemma soundD: "sound s r \<Longrightarrow> r = Returns (x, s') \<Longrightarrow> set s' \<subseteq> set s"
  by (simp add: sound_def)

lemma sound_and_then:
  "fine m \<Longrightarrow> (\<And>x. m = Returns x \<Longrightarrow> sound s (f x)) \<Longrightarrow> sound s (and_then m f)"
  by (cases m) simp_all

lemma sound_try:
  assumes "sound s a" "\<And>s1. a = Returns (None, s1) \<Longrightarrow> sound s (rest s1)"
  shows "sound s (try_parser a rest)"
proof (cases a)
  case (Returns x)
  obtain n s1 where x: "x = (n, s1)" by (cases x)
  show ?thesis
  proof (cases n)
    case None
    then show ?thesis using assms(2)[of s1] Returns x by (simp add: try_parser_def)
  next
    case (Some v)
    then show ?thesis using assms(1) Returns x by (simp add: try_parser_def)
  qed
qed (use assms(1) in \<open>simp_all add: try_parser_def\<close>)

lemma sound_within: "sound s1 r \<Longrightarrow> set s1 \<subseteq> set s \<Longrightarrow> sound s r"
  by (auto simp: sound_def)

lemma texted_subset: "texted s \<Longrightarrow> set s' \<subseteq> set s \<Longrightarrow> texted s'"
  by (auto simp: texted_def)

lemma texted_Cons: "texted (t # ts) \<Longrightarrow> texted ts"
  by (auto simp: texted_def)

lemma texted_text:
  "texted (t # ts) \<Longrightarrow> token t = tok_symbol \<or> token t = tok_number \<or> token t = tok_string \<Longrightarrow>
   \<exists>v. tvalue t = Some v \<and> v \<noteq> []"
  by (auto simp: texted_def has_text_def split: option.splits)

lemma sound_parse_variable:
  assumes "texted s" "s \<noteq> []"
  shows "sound s (parse_variable s)"
proof (cases s)
  case Nil
  then show ?thesis using assms by simp
next
  case (Cons t nxt)
  show ?thesis
  proof (cases "token t = tok_symbol")
    case True
    then obtain v where "tvalue t = Some v" using texted_text[of t nxt] assms Cons by auto
    then show ?thesis using True Cons by (auto simp: parse_variable_def string_of_def)
  next
    case False
    then show ?thesis using Cons by (simp add: parse_variable_def)
  qed
qed

lemma sound_parse_value:
  assumes "texted s" "s \<noteq> []"
  shows "sound s (parse_value s restriction)"
proof (cases s)
  case Nil
  then show ?thesis using assms by simp
next
  case (Cons t nxt)
  show ?thesis
  proof (cases "token t = tok_symbol \<or> token t = tok_number \<or> token t = tok_string")
    case True
    then obtain v where "tvalue t = Some v" "v \<noteq> []"
      using texted_text[of t nxt] assms Cons by auto
    then show ?thesis using True Cons
      by (auto simp: parse_value_def string_of_def new_value_t_def)
  next
    case False
    then show ?thesis using Cons by (simp add: parse_value_def)
  qed
qed

lemma sound_parse_restricted:
  assumes tx: "texted s" "s \<noteq> []"
  shows "sound s (parse_restricted s)"
proof (cases s)
  case Nil
  then show ?thesis using tx by simp
next
  case (Cons t r)
  show ?thesis
  proof (cases "token t = tok_hex \<or> token t = tok_bin")
    case False
    then show ?thesis using Cons by (simp add: parse_restricted_def)
  next
    case True
    have v: "sound s (parse_value r (token t))" if "r \<noteq> []"
    proof -
      have "texted r" using tx(1) Cons by (auto dest: texted_Cons)
      then have "sound r (parse_value r (token t))" using that by (rule sound_parse_value)
      then show ?thesis using Cons by (auto intro: sound_within)
    qed
    have "sound s (and_then (if r \<noteq> [] then parse_value r (token t) else Returns (None, r))
              (\<lambda>(n, r). case n of Some n \<Rightarrow> Returns (Some n, r)
                 | None \<Rightarrow> if token t = tok_hex
                     then and_then (new_value_t tok_number [] (token t)) (\<lambda>n. Returns (Some n, r))
                     else Returns (None, s)))"
    proof (rule sound_and_then)
      show "fine (if r \<noteq> [] then parse_value r (token t) else Returns (None, r))"
        using v by (auto dest: sound_fine)
    next
      fix x assume x: "(if r \<noteq> [] then parse_value r (token t) else Returns (None, r)) = Returns x"
      obtain n r' where xr: "x = (n, r')" by (cases x)
      have "set r' \<subseteq> set s" using x xr v Cons by (auto split: if_splits dest: soundD)
      then show "sound s (case x of (n, r) \<Rightarrow> case n of Some n \<Rightarrow> Returns (Some n, r)
                 | None \<Rightarrow> if token t = tok_hex
                     then and_then (new_value_t tok_number [] (token t)) (\<lambda>n. Returns (Some n, r))
                     else Returns (None, s))"
        by (auto simp: xr new_value_t_def split: option.split)
    qed
    then show ?thesis unfolding parse_restricted_def Cons list.case
      using True by (simp only: if_True)
  qed
qed

lemma sound_mem: "sound s r \<Longrightarrow> r = Returns (x, s') \<Longrightarrow> y \<in> set s' \<Longrightarrow> y \<in> set s"
  by (auto simp: sound_def)

text \<open>One step of each rule, from the rules it calls.\<close>

lemma sound_call:
  assumes E: "\<And>s ab as. texted s \<Longrightarrow> s \<noteq> [] \<Longrightarrow> sound s (parse_expr n s ab as)"
    and "texted s" "set nxt \<subseteq> set s" "nxt \<noteq> []"
  shows "sound s (parse_expr n nxt ab as)"
proof -
  have "texted nxt" using assms(2,3) by (rule texted_subset)
  then have "sound nxt (parse_expr n nxt ab as)" using assms(4) by (rule E)
  then show ?thesis using assms(3) by (rule sound_within)
qed

lemma sound_post_step:
  assumes E: "\<And>s ab as. texted s \<Longrightarrow> s \<noteq> [] \<Longrightarrow> sound s (parse_expr n s ab as)"
    and "texted s" "s \<noteq> []"
  shows "sound s (parse_tok_binary_expr_post_lhs (Suc n) s lhs)"
proof (cases s)
  case Nil
  then show ?thesis using assms(3) by simp
next
  case (Cons t nxt)
  show ?thesis
  proof (cases "nxt = []")
    case True
    then show ?thesis by (simp add: Cons)
  next
    case False
    have c: "sound s (parse_expr n nxt True False)"
      using E assms(2) _ False by (rule sound_call) (auto simp: Cons)
    show ?thesis unfolding Cons parse_tok_binary_expr_post_lhs.simps list.case
      using False sound_fine[OF c] unfolding Cons
      by (auto intro!: sound_and_then dest: sound_mem[OF c, unfolded Cons, simplified] split: option.split)
  qed
qed

lemma sound_paren_step:
  assumes E: "\<And>s ab as. texted s \<Longrightarrow> s \<noteq> [] \<Longrightarrow> sound s (parse_expr n s ab as)"
    and "texted s" "s \<noteq> []"
  shows "sound s (parse_parenthesized (Suc n) s)"
proof (cases s)
  case Nil
  then show ?thesis using assms(3) by simp
next
  case (Cons t nxt)
  show ?thesis
  proof (cases "nxt = []")
    case True
    then show ?thesis by (simp add: Cons)
  next
    case False
    have c: "sound s (parse_expr n nxt True False)"
      using E assms(2) _ False by (rule sound_call) (auto simp: Cons)
    have d: "y \<in> set r \<Longrightarrow> y \<in> set s"
      if "parse_expr n nxt True False = Returns (x, t' # r)" for t' r x y
      using sound_mem[OF c that, of y] by simp
    show ?thesis unfolding Cons parse_parenthesized.simps list.case
      using False sound_fine[OF c] unfolding Cons
      by (auto intro!: sound_and_then dest: d[unfolded Cons, simplified] split: option.split list.split)
  qed
qed

lemma sound_set_step:
  assumes E: "\<And>s ab as. texted s \<Longrightarrow> s \<noteq> [] \<Longrightarrow> sound s (parse_expr n s ab as)"
    and "texted s" "s \<noteq> []"
  shows "sound s (parse_set (Suc n) s)"
  unfolding parse_set.simps
proof (rule sound_and_then, goal_cases)
  case 1
  show ?case using sound_parse_variable[OF assms(2,3)] by (rule sound_fine)
next
  case (2 x)
  obtain var r where xr: "x = (var, r)" by (cases x)
  have r: "set r \<subseteq> set s" using soundD[OF sound_parse_variable[OF assms(2,3)]] 2 xr by simp
  show ?case
  proof (cases r)
    case Nil
    then show ?thesis by (simp add: xr split: option.split)
  next
    case (Cons t nxt)
    show ?thesis
    proof (cases "nxt = []")
      case True
      then show ?thesis by (simp add: xr Cons split: option.split)
    next
      case False
      have c: "sound s (parse_expr n nxt True False)"
        using E assms(2) _ False by (rule sound_call) (use r Cons in auto)
      show ?thesis unfolding xr prod.case Cons list.case
        using False sound_fine[OF c]
        by (auto intro!: sound_and_then dest: sound_mem[OF c] split: option.split)
    qed
  qed
qed

lemma sound_binary_step:
  assumes E: "\<And>s ab as. texted s \<Longrightarrow> s \<noteq> [] \<Longrightarrow> sound s (parse_expr n s ab as)"
    and P: "\<And>s lhs. texted s \<Longrightarrow> s \<noteq> [] \<Longrightarrow>
              sound s (parse_tok_binary_expr_post_lhs n s lhs)"
    and "texted s" "s \<noteq> []"
  shows "sound s (parse_tok_binary_expr (Suc n) s)"
  unfolding parse_tok_binary_expr.simps
proof (rule sound_and_then, goal_cases)
  case 1
  show ?case using E[OF assms(3,4)] by (rule sound_fine)
next
  case (2 x)
  obtain lhs r where xr: "x = (lhs, r)" by (cases x)
  have r: "set r \<subseteq> set s" using soundD[OF E[OF assms(3,4)]] 2 xr by simp
  show ?case
  proof (cases "r = []")
    case True
    then show ?thesis by (simp add: xr split: option.split)
  next
    case False
    have p: "sound s (parse_tok_binary_expr_post_lhs n r l)" for l
    proof -
      have "texted r" using assms(3) r by (rule texted_subset)
      then have "sound r (parse_tok_binary_expr_post_lhs n r l)" using False by (rule P)
      then show ?thesis using r by (rule sound_within)
    qed
    show ?thesis unfolding xr prod.case
      using False sound_fine[OF p]
      by (auto intro!: sound_and_then dest: sound_mem[OF p] split: option.split)
  qed
qed

lemma sound_loop_step:
  assumes E: "\<And>s ab as. texted s \<Longrightarrow> s \<noteq> [] \<Longrightarrow> sound s (parse_expr n s ab as)"
    and L: "\<And>r vals. texted r \<Longrightarrow> sound r (parse_csv_loop n r vals)"
    and "texted r"
  shows "sound r (parse_csv_loop (Suc n) r vals)"
proof (cases "r = []")
  case True
  then show ?thesis by simp
next
  case False
  have e: "sound r (parse_expr n r True False)" using assms(3) False by (rule E)
  have "sound r (and_then (parse_expr n r True False) (\<lambda>(nxt, r).
             case nxt of
               None \<Rightarrow> Returns (vals, r)
             | Some nxt \<Rightarrow>
                (case r of
                   [] \<Rightarrow> Returns (vals @ [nxt], r)
                 | t # r' \<Rightarrow>
                     if token t \<noteq> tok_comma then Returns (vals @ [nxt], r)
                     else parse_csv_loop n r' (vals @ [nxt]))))"
  proof (rule sound_and_then, goal_cases)
    case 1
    show ?case using e by (rule sound_fine)
  next
    case (2 x)
    obtain nxt r1 where xr: "x = (nxt, r1)" by (cases x)
    have r1: "set r1 \<subseteq> set r" using soundD[OF e] 2 xr by simp
    have l: "sound r (parse_csv_loop n r' vals')" if "r1 = t # r'" for t r' vals'
    proof -
      have sub: "set r' \<subseteq> set r" using r1 that by auto
      have "texted r'" using assms(3) sub by (rule texted_subset)
      then have "sound r' (parse_csv_loop n r' vals')" by (rule L)
      then show ?thesis using sub by (rule sound_within)
    qed
    show ?case unfolding xr prod.case using r1 l
      by (auto split: option.split list.split)
  qed
  then show ?thesis using False by simp
qed

lemma sound_csv_step:
  assumes L: "\<And>r vals. texted r \<Longrightarrow> sound r (parse_csv_loop n r vals)"
    and "texted s"
  shows "sound s (parse_csv (Suc n) s)"
  unfolding parse_csv.simps
  using sound_fine[OF L[OF assms(2)]]
  by (auto intro!: sound_and_then dest: sound_mem[OF L[OF assms(2)]])

lemma sound_fcall_step:
  assumes C: "\<And>s. texted s \<Longrightarrow> sound s (parse_csv n s)"
    and "texted s" "s \<noteq> []"
  shows "sound s (parse_fcall (Suc n) s)"
proof (cases s)
  case Nil
  then show ?thesis using assms(3) by simp
next
  case (Cons t r)
  show ?thesis
  proof (cases "token t = tok_symbol")
    case False
    then show ?thesis using Cons by simp
  next
    case True
    then obtain fname where f: "tvalue t = Some fname"
      using texted_text[of t r] assms(2) Cons by auto
    show ?thesis
    proof (cases r)
      case Nil
      then show ?thesis using True f Cons by (simp add: string_of_def)
    next
      case r: (Cons t' nxt)
      have sub: "set nxt \<subseteq> set s" using r Cons by auto
      have "texted nxt" using assms(2) sub by (rule texted_subset)
      then have "sound nxt (parse_csv n nxt)" by (rule C)
      then have c: "sound s (parse_csv n nxt)" using sub by (rule sound_within)
      have d: "y \<in> set q \<Longrightarrow> y \<in> set s"
        if "parse_csv n nxt = Returns (args, t'' # q)" for args t'' q y
        using sound_mem[OF c that, of y] by simp
      show ?thesis unfolding Cons r parse_fcall.simps list.case
        using True f sound_fine[OF c] unfolding Cons r
        by (auto simp: string_of_def intro!: sound_and_then dest: d[unfolded Cons r, simplified]
            split: option.split list.split)
    qed
  qed
qed

lemma sound_expr_step:
  assumes B: "\<And>s. texted s \<Longrightarrow> s \<noteq> [] \<Longrightarrow> sound s (parse_tok_binary_expr n s)"
    and S: "\<And>s. texted s \<Longrightarrow> s \<noteq> [] \<Longrightarrow> sound s (parse_set n s)"
    and F: "\<And>s. texted s \<Longrightarrow> s \<noteq> [] \<Longrightarrow> sound s (parse_fcall n s)"
    and P: "\<And>s. texted s \<Longrightarrow> s \<noteq> [] \<Longrightarrow> sound s (parse_parenthesized n s)"
    and tx: "texted s" "s \<noteq> []"
  shows "sound s (parse_expr (Suc n) s ab as)"
  unfolding parse_expr.simps
proof (intro sound_try)
  show "sound s (if ab then parse_tok_binary_expr n s else Returns (None, s))"
    using B[OF tx] by simp
next
  fix s1 assume "(if ab then parse_tok_binary_expr n s else Returns (None, s)) = Returns (None, s1)"
  then have s1: "s1 = s" using keepsD[OF keeps_parse_tok_binary_expr] by (auto split: if_splits)
  show "sound s (if as then parse_set n s1 else Returns (None, s1))"
    unfolding s1 using S[OF tx] by simp
  fix s2 assume "(if as then parse_set n s1 else Returns (None, s1)) = Returns (None, s2)"
  then have s2: "s2 = s" using keepsD[OF keeps_parse_set] s1 by (auto split: if_splits)
  show "sound s (parse_fcall n s2)" unfolding s2 using tx by (rule F)
  fix s3 assume "parse_fcall n s2 = Returns (None, s3)"
  then have s3: "s3 = s" using keepsD[OF keeps_parse_fcall] s2 by auto
  show "sound s (parse_parenthesized n s3)" unfolding s3 using tx by (rule P)
  fix s4 assume "parse_parenthesized n s3 = Returns (None, s4)"
  then have s4: "s4 = s" using keepsD[OF keeps_parse_parenthesized] s3 by auto
  show "sound s (parse_variable s4)" unfolding s4 using tx by (rule sound_parse_variable)
  fix s5 assume "parse_variable s4 = Returns (None, s5)"
  then have s5: "s5 = s" using keepsD[OF keeps_parse_variable] s4 by auto
  show "sound s (parse_restricted s5)" unfolding s5 using tx by (rule sound_parse_restricted)
  fix s6 assume "parse_restricted s5 = Returns (None, s6)"
  then have s6: "s6 = s" using keepsD[OF keeps_parse_restricted] s5 by auto
  show "sound s (parse_value s6 tok_undef)" unfolding s6 using tx by (rule sound_parse_value)
  fix s7 assume "parse_value s6 tok_undef = Returns (None, s7)"
  then have s7: "s7 = s" using keepsD[OF keeps_parse_value] s6 by auto
  show "sound s (Returns (None, s7) :: parsed)" unfolding s7 by simp
qed

lemma sound_all:
  "(\<forall>s ab as. texted s \<longrightarrow> s \<noteq> [] \<longrightarrow> sound s (parse_expr n s ab as)) \<and>
   (\<forall>s. texted s \<longrightarrow> s \<noteq> [] \<longrightarrow> sound s (parse_set n s)) \<and>
   (\<forall>s. texted s \<longrightarrow> s \<noteq> [] \<longrightarrow> sound s (parse_parenthesized n s)) \<and>
   (\<forall>s lhs. texted s \<longrightarrow> s \<noteq> [] \<longrightarrow> sound s (parse_tok_binary_expr_post_lhs n s lhs)) \<and>
   (\<forall>s. texted s \<longrightarrow> s \<noteq> [] \<longrightarrow> sound s (parse_tok_binary_expr n s)) \<and>
   (\<forall>r vals. texted r \<longrightarrow> sound r (parse_csv_loop n r vals)) \<and>
   (\<forall>s. texted s \<longrightarrow> sound s (parse_csv n s)) \<and>
   (\<forall>s. texted s \<longrightarrow> s \<noteq> [] \<longrightarrow> sound s (parse_fcall n s))"
proof (induction n)
  case 0
  show ?case by simp
next
  case (Suc n)
  then have E: "\<And>s ab as. texted s \<Longrightarrow> s \<noteq> [] \<Longrightarrow> sound s (parse_expr n s ab as)"
    and S: "\<And>s. texted s \<Longrightarrow> s \<noteq> [] \<Longrightarrow> sound s (parse_set n s)"
    and P: "\<And>s. texted s \<Longrightarrow> s \<noteq> [] \<Longrightarrow> sound s (parse_parenthesized n s)"
    and O: "\<And>s lhs. texted s \<Longrightarrow> s \<noteq> [] \<Longrightarrow> sound s (parse_tok_binary_expr_post_lhs n s lhs)"
    and B: "\<And>s. texted s \<Longrightarrow> s \<noteq> [] \<Longrightarrow> sound s (parse_tok_binary_expr n s)"
    and L: "\<And>r vals. texted r \<Longrightarrow> sound r (parse_csv_loop n r vals)"
    and C: "\<And>s. texted s \<Longrightarrow> sound s (parse_csv n s)"
    and F: "\<And>s. texted s \<Longrightarrow> s \<noteq> [] \<Longrightarrow> sound s (parse_fcall n s)"
    by blast+
  show ?case
  proof (intro conjI allI impI)
    fix s :: "token_t list" and ab as :: bool and lhs :: st and vals :: "st list"
    assume tx: "texted s"
    show "sound s (parse_expr (Suc n) s ab as)" if "s \<noteq> []"
      using B S F P tx that by (rule sound_expr_step)
    show "sound s (parse_set (Suc n) s)" if "s \<noteq> []"
      using E tx that by (rule sound_set_step)
    show "sound s (parse_parenthesized (Suc n) s)" if "s \<noteq> []"
      using E tx that by (rule sound_paren_step)
    show "sound s (parse_tok_binary_expr_post_lhs (Suc n) s lhs)" if "s \<noteq> []"
      using E tx that by (rule sound_post_step)
    show "sound s (parse_tok_binary_expr (Suc n) s)" if "s \<noteq> []"
      using E O tx that by (rule sound_binary_step)
    show "sound s (parse_csv_loop (Suc n) s vals)"
      using E L tx by (rule sound_loop_step)
    show "sound s (parse_csv (Suc n) s)"
      using L tx by (rule sound_csv_step)
    show "sound s (parse_fcall (Suc n) s)" if "s \<noteq> []"
      using C tx that by (rule sound_fcall_step)
  qed
qed

lemma sound_parse_expr: "texted s \<Longrightarrow> s \<noteq> [] \<Longrightarrow> sound s (parse_expr n s ab as)"
  using sound_all[of n] by blast

text \<open>
  On a chain that is not empty and whose symbols, numbers and strings have a text,
  \<^verbatim>\<open>treeify\<close> returns a tree or throws its own error: it reads through no null
  pointer and never returns \<^verbatim>\<open>nullptr\<close>.
\<close>

lemma treeify_nonempty:
  assumes "texted tokens" "tokens \<noteq> []"
  shows "(\<exists>root. treeify tokens = Returns (Some root)) \<or>
         (\<exists>v. treeify tokens = Throws (Treeify_failure v))"
proof -
  let ?n = "4 * length tokens + 4"
  have f: "funded (parse_expr ?n tokens True True)" by (rule parse_expr_enough_fuel) simp
  have "fine (parse_expr ?n tokens True True)"
    using sound_parse_expr[OF assms] by (rule sound_fine)
  then obtain val s where r: "parse_expr ?n tokens True True = Returns (val, s)"
    using f by (cases "parse_expr ?n tokens True True") (auto simp: funded_def)
  show ?thesis
  proof (cases val)
    case None
    then have "s = tokens" using keepsD[OF keeps_parse_expr r[unfolded None]] by simp
    then show ?thesis using assms(2) r
      by (cases tokens) (simp_all add: treeify_def treeify_fuel_def)
  next
    case (Some root)
    then show ?thesis using r
      by (cases s) (simp_all add: treeify_def treeify_fuel_def)
  qed
qed

text \<open>Every chain that \<^verbatim>\<open>tokenize\<close> returns is such a chain, when it is not empty.\<close>

lemma tokenize_texted:
  assumes "tokenize str = Returns ts"
  shows "texted ts"
  using tokenize_good[OF assms] by (auto simp: texted_def good_token_def list_all_iff)

section \<open>Evaluation and the order of the callbacks\<close>

lemma recording_simps [simp]:
  "load (recording ct) v (h, log) = (fst (load ct v h), snd (load ct v h), log @ [Load v])"
  "save (recording ct) v x (h, log) = (save ct v x h, log @ [Save v x])"
  "bin (recording ct) op x y (h, log) =
     (fst (bin ct op x y h), snd (bin ct op x y h), log @ [Bin op x y])"
  "fcall (recording ct) f n xs (h, log) =
     (fst (fcall ct f n xs h), snd (fcall ct f n xs h), log @ [Fcall f n xs])"
  "convert (recording ct) v ty r (h, log) =
     (fst (convert ct v ty r h), snd (convert ct v ty r h), log @ [Convert v ty r])"
  by (simp_all add: recording_def logged_def)

lemma with_log_simps [simp]:
  "with_log log (Returns (x, h, l)) = Returns (x, h, log @ l)"
  "with_log log (Throws e) = Throws e"
  "with_log log (Undefined u) = Undefined u"
  "with_log log Out_of_fuel = Out_of_fuel"
  by (simp_all add: with_log_def)

lemma forget_log_simps [simp]:
  "forget_log (Returns (x, h, l)) = Returns (x, h)"
  "forget_log (Throws e) = Throws e"
  "forget_log (Undefined u) = Undefined u"
  "forget_log Out_of_fuel = Out_of_fuel"
  by (simp_all add: forget_log_def)

subsection \<open>A recorded run only appends to the log\<close>

lemma appends_fail [simp]:
  "appends (\<lambda>s. Throws e)" "appends (\<lambda>s. Undefined u)"
  by (simp_all add: appends_def)

lemma appends_and_then:
  assumes "appends m" "\<And>x. appends (f x)"
  shows "appends (\<lambda>s. and_then (m s) (\<lambda>(x, s). f x s))"
  unfolding appends_def
proof (intro allI)
  fix h log
  have m: "m (h, log) = with_log log (m (h, []))" using assms(1) unfolding appends_def by blast
  show "and_then (m (h, log)) (\<lambda>(x, s). f x s) = with_log log (and_then (m (h, [])) (\<lambda>(x, s). f x s))"
  proof (cases "m (h, [])")
    case (Returns r)
    obtain x h1 l1 where r: "r = (x, h1, l1)" by (cases r) auto
    have ml: "m (h, log) = Returns (x, h1, log @ l1)" unfolding m Returns r by simp
    have f1: "f x (h1, log @ l1) = with_log (log @ l1) (f x (h1, []))"
      using assms(2)[of x] unfolding appends_def by blast
    have f2: "f x (h1, l1) = with_log l1 (f x (h1, []))"
      using assms(2)[of x] unfolding appends_def by blast
    show ?thesis unfolding ml Returns r
      by (simp only: and_then_simps prod.case f1 f2) (cases "f x (h1, [])"; auto)
  next
    case (Throws e) show ?thesis unfolding m Throws by simp
  next
    case (Undefined u) show ?thesis unfolding m Undefined by simp
  next
    case Out_of_fuel show ?thesis unfolding m Out_of_fuel by simp
  qed
qed

lemma list_eval_Cons_fun:
  "list_eval ord ct (a # ns) = (\<lambda>s. and_then (eval ord ct a s) (\<lambda>(x, s).
          and_then (list_eval ord ct ns s) (\<lambda>(list, s). Returns (x # list, s))))"
  by (rule ext) simp

lemma eval_set_fun:
  "eval ord ct (set_t v e) = (\<lambda>s. and_then (eval ord ct e s)
          (\<lambda>(x, s). Returns (nullref, save ct v x s)))"
  by (rule ext) simp

lemma eval_call_fun:
  "eval ord ct (call_t f (Some vs)) = (\<lambda>s. and_then (list_eval ord ct vs s)
          (\<lambda>(list, s). Returns (fcall ct f (length vs) list s)))"
  by (rule ext) simp

lemma eval_bin_left_fun:
  "eval Left_first ct (bin_t op l r) = (\<lambda>s. and_then (eval Left_first ct l s) (\<lambda>(x, s).
          and_then (eval Left_first ct r s) (\<lambda>(y, s). Returns (bin ct op x y s))))"
  by (rule ext) simp

lemma eval_bin_right_fun:
  "eval Right_first ct (bin_t op l r) = (\<lambda>s. and_then (eval Right_first ct r s) (\<lambda>(y, s).
          and_then (eval Right_first ct l s) (\<lambda>(x, s). Returns (bin ct op x y s))))"
  by (rule ext) simp

lemma appends_leaf:
  "appends (\<lambda>s. Returns (x # list, s))"
  "appends (\<lambda>s. Returns ([], s))"
  "appends (\<lambda>s. Returns (load (recording ct) v s))"
  "appends (\<lambda>s. Returns (convert (recording ct) v ty r s))"
  "appends (\<lambda>s. Returns (nullref, save (recording ct) v y s))"
  "appends (\<lambda>s. Returns (fcall (recording ct) f n xs s))"
  "appends (\<lambda>s. Returns (bin (recording ct) op y z s))"
  by (simp_all add: appends_def)

lemma list_eval_appends:
  assumes "\<And>n. n \<in> set ns \<Longrightarrow> appends (eval ord (recording ct) n)"
  shows "appends (list_eval ord (recording ct) ns)"
  using assms
proof (induction ns)
  case Nil
  have "list_eval ord (recording ct) [] = (\<lambda>s. Returns ([], s))" by (rule ext) simp
  then show ?case by (simp only: appends_leaf)
next
  case (Cons a ns)
  have a: "appends (eval ord (recording ct) a)" using Cons.prems by simp
  have ns: "appends (list_eval ord (recording ct) ns)" using Cons by simp
  show ?case unfolding list_eval_Cons_fun
    by (intro appends_and_then a ns appends_leaf)
qed

lemma eval_appends: "appends (eval ord (recording ct) n)"
proof (induction n)
  case (var_t v)
  have "eval ord (recording ct) (var_t v) = (\<lambda>s. Returns (load (recording ct) v s))"
    by (rule ext) simp
  then show ?case by (simp only: appends_leaf)
next
  case (value_t ty v r)
  have "eval ord (recording ct) (value_t ty v r) = (\<lambda>s. Returns (convert (recording ct) v ty r s))"
    by (rule ext) simp
  then show ?case by (simp only: appends_leaf)
next
  case (set_t v e)
  show ?case unfolding eval_set_fun by (intro appends_and_then set_t appends_leaf)
next
  case (list_t vs)
  have "eval ord (recording ct) (list_t vs) = (\<lambda>s. Throws List_eval_failure)"
    by (rule ext) simp
  then show ?case by (simp only: appends_fail)
next
  case (call_t f args)
  show ?case
  proof (cases args)
    case None
    have "eval ord (recording ct) (call_t f None) = (\<lambda>s. Undefined Null_dereference)"
      by (rule ext) simp
    then show ?thesis unfolding None by (simp only: appends_fail)
  next
    case (Some vs)
    have "appends (list_eval ord (recording ct) vs)"
      using call_t Some by (intro list_eval_appends) auto
    then show ?thesis unfolding Some eval_call_fun
      by (intro appends_and_then appends_leaf)
  qed
next
  case (bin_t op l r)
  show ?case
  proof (cases ord)
    case Left_first
    show ?thesis using bin_t unfolding Left_first eval_bin_left_fun
      by (intro appends_and_then appends_leaf)
  next
    case Right_first
    show ?thesis using bin_t unfolding Right_first eval_bin_right_fun
      by (intro appends_and_then appends_leaf)
  qed
qed

subsection \<open>A recorded run answers as the plain run\<close>

lemma simulates_Returns:
  assumes "\<And>h log. fst (g (h, log)) = fst (k h) \<and> fst (snd (g (h, log))) = snd (k h)"
  shows "simulates (\<lambda>s. Returns (g s)) (\<lambda>h. Returns (k h))"
  unfolding simulates_def
proof (intro allI)
  fix h log
  obtain x h1 l where g: "g (h, log) = (x, h1, l)" by (cases "g (h, log)") auto
  with assms[of h log] show "forget_log (Returns (g (h, log))) = Returns (k h)"
    by (cases "k h") auto
qed

lemma simulates_fail [simp]:
  "simulates (\<lambda>s. Throws e) (\<lambda>h. Throws e)" "simulates (\<lambda>s. Undefined u) (\<lambda>h. Undefined u)"
  by (simp_all add: simulates_def)

lemma simulates_and_then:
  assumes "simulates m' m" "\<And>x. simulates (f' x) (f x)"
  shows "simulates (\<lambda>s. and_then (m' s) (\<lambda>(x, s). f' x s)) (\<lambda>h. and_then (m h) (\<lambda>(x, h). f x h))"
  unfolding simulates_def
proof (intro allI)
  fix h log
  have m: "m h = forget_log (m' (h, log))" using assms(1) unfolding simulates_def by simp
  show "forget_log (and_then (m' (h, log)) (\<lambda>(x, s). f' x s)) = and_then (m h) (\<lambda>(x, h). f x h)"
  proof (cases "m' (h, log)")
    case (Returns r)
    obtain x h1 l1 where r: "r = (x, h1, l1)" by (cases r) auto
    have "forget_log (f' x (h1, l1)) = f x h1"
      using assms(2)[of x] unfolding simulates_def by blast
    then show ?thesis unfolding m Returns r by simp
  next
    case (Throws e) show ?thesis unfolding m Throws by simp
  next
    case (Undefined u) show ?thesis unfolding m Undefined by simp
  next
    case Out_of_fuel show ?thesis unfolding m Out_of_fuel by simp
  qed
qed

lemma simulates_leaf:
  "simulates (\<lambda>s. Returns (x # list, s)) (\<lambda>h. Returns (x # list, h))"
  "simulates (\<lambda>s. Returns ([], s)) (\<lambda>h. Returns ([], h))"
  "simulates (\<lambda>s. Returns (load (recording ct) v s)) (\<lambda>h. Returns (load ct v h))"
  "simulates (\<lambda>s. Returns (convert (recording ct) v ty r s)) (\<lambda>h. Returns (convert ct v ty r h))"
  "simulates (\<lambda>s. Returns (nullref, save (recording ct) v y s)) (\<lambda>h. Returns (nullref, save ct v y h))"
  "simulates (\<lambda>s. Returns (fcall (recording ct) f n xs s)) (\<lambda>h. Returns (fcall ct f n xs h))"
  "simulates (\<lambda>s. Returns (bin (recording ct) op y z s)) (\<lambda>h. Returns (bin ct op y z h))"
  by (rule simulates_Returns; simp)+

lemma list_eval_simulates:
  assumes "\<And>n. n \<in> set ns \<Longrightarrow> simulates (eval ord (recording ct) n) (eval ord ct n)"
  shows "simulates (list_eval ord (recording ct) ns) (list_eval ord ct ns)"
  using assms
proof (induction ns)
  case Nil
  have "list_eval ord (recording ct) [] = (\<lambda>s. Returns ([], s))"
    "list_eval ord ct [] = (\<lambda>s. Returns ([], s))" by (rule ext, simp)+
  then show ?case by (simp only: simulates_leaf)
next
  case (Cons a ns)
  have a: "simulates (eval ord (recording ct) a) (eval ord ct a)" using Cons.prems by simp
  have ns: "simulates (list_eval ord (recording ct) ns) (list_eval ord ct ns)" using Cons by simp
  show ?case unfolding list_eval_Cons_fun
    by (intro simulates_and_then a ns simulates_leaf)
qed

lemma eval_simulates: "simulates (eval ord (recording ct) n) (eval ord ct n)"
proof (induction n)
  case (var_t v)
  have "eval ord (recording ct) (var_t v) = (\<lambda>s. Returns (load (recording ct) v s))"
    "eval ord ct (var_t v) = (\<lambda>s. Returns (load ct v s))"
    by (rule ext, simp)+
  then show ?case by (simp only: simulates_leaf)
next
  case (value_t ty v r)
  have "eval ord (recording ct) (value_t ty v r) = (\<lambda>s. Returns (convert (recording ct) v ty r s))"
    "eval ord ct (value_t ty v r) = (\<lambda>s. Returns (convert ct v ty r s))"
    by (rule ext, simp)+
  then show ?case by (simp only: simulates_leaf)
next
  case (set_t v e)
  show ?case unfolding eval_set_fun by (intro simulates_and_then set_t simulates_leaf)
next
  case (list_t vs)
  have "eval ord (recording ct) (list_t vs) = (\<lambda>s. Throws List_eval_failure)"
    "eval ord ct (list_t vs) = (\<lambda>s. Throws List_eval_failure)"
    by (rule ext, simp)+
  then show ?case by (simp only: simulates_fail)
next
  case (call_t f args)
  show ?case
  proof (cases args)
    case None
    have "eval ord (recording ct) (call_t f None) = (\<lambda>s. Undefined Null_dereference)"
      "eval ord ct (call_t f None) = (\<lambda>s. Undefined Null_dereference)"
      by (rule ext, simp)+
    then show ?thesis unfolding None by (simp only: simulates_fail)
  next
    case (Some vs)
    have "simulates (list_eval ord (recording ct) vs) (list_eval ord ct vs)"
      using call_t Some by (intro list_eval_simulates) auto
    then show ?thesis unfolding Some eval_call_fun
      by (intro simulates_and_then simulates_leaf)
  qed
next
  case (bin_t op l r)
  show ?case
  proof (cases ord)
    case Left_first
    show ?thesis using bin_t unfolding Left_first eval_bin_left_fun
      by (intro simulates_and_then simulates_leaf)
  next
    case Right_first
    show ?thesis using bin_t unfolding Right_first eval_bin_right_fun
      by (intro simulates_and_then simulates_leaf)
  qed
qed

subsection \<open>The calls of a node\<close>

text \<open>A recorded run is the plain run with the calls appended to the log.\<close>

lemma recorded_run:
  assumes "appends m'" "simulates m' m"
  shows "m' (h, log) =
     (case m h of Returns (x, h') \<Rightarrow>
        Returns (x, h', log @ (case m' (h, []) of Returns (x, h', l) \<Rightarrow> l | _ \<Rightarrow> []))
      | Throws e \<Rightarrow> Throws e | Undefined u \<Rightarrow> Undefined u | Out_of_fuel \<Rightarrow> Out_of_fuel)"
proof -
  have a: "m' (h, log) = with_log log (m' (h, []))" using assms(1) unfolding appends_def by blast
  have b: "m h = forget_log (m' (h, []))" using assms(2) unfolding simulates_def by simp
  show ?thesis unfolding a b by (cases "m' (h, [])") auto
qed

lemma recorded_eval:
  "eval ord (recording ct) n (h, log) =
     (case eval ord ct n h of Returns (x, h') \<Rightarrow> Returns (x, h', log @ calls ord ct n h)
      | Throws e \<Rightarrow> Throws e | Undefined u \<Rightarrow> Undefined u | Out_of_fuel \<Rightarrow> Out_of_fuel)"
  unfolding calls_def by (rule recorded_run[OF eval_appends eval_simulates])

lemma recorded_list_eval:
  "list_eval ord (recording ct) ns (h, log) =
     (case list_eval ord ct ns h of Returns (x, h') \<Rightarrow> Returns (x, h', log @ list_calls ord ct ns h)
      | Throws e \<Rightarrow> Throws e | Undefined u \<Rightarrow> Undefined u | Out_of_fuel \<Rightarrow> Out_of_fuel)"
  unfolding list_calls_def
  by (rule recorded_run[OF list_eval_appends list_eval_simulates]) (rule eval_appends eval_simulates)+

lemma calls_call_t:
  assumes "list_eval ord ct args h = Returns (list, h1)"
  shows "calls ord ct (call_t f (Some args)) h =
           list_calls ord ct args h @ [Fcall f (length args) list]"
  unfolding calls_def[of _ _ "call_t f (Some args)"] eval.simps recorded_list_eval assms
  by simp

lemma list_calls_Cons:
  assumes "eval ord ct a h = Returns (x, h1)" "list_eval ord ct as h1 = Returns (rest, h2)"
  shows "list_calls ord ct (a # as) h = calls ord ct a h @ list_calls ord ct as h1"
  unfolding list_calls_def[of _ _ "a # as"] list_eval.simps recorded_eval assms
  by (simp add: recorded_list_eval assms)

lemma calls_bin_left:
  assumes "eval Left_first ct l h = Returns (x, h1)" "eval Left_first ct r h1 = Returns (y, h2)"
  shows "calls Left_first ct (bin_t op l r) h =
           calls Left_first ct l h @ calls Left_first ct r h1 @ [Bin op x y]"
  unfolding calls_def[of _ _ "bin_t op l r"] eval.simps recorded_eval assms
  by (simp add: recorded_eval assms)

lemma calls_bin_right:
  assumes "eval Right_first ct r h = Returns (y, h1)" "eval Right_first ct l h1 = Returns (x, h2)"
  shows "calls Right_first ct (bin_t op l r) h =
           calls Right_first ct r h @ calls Right_first ct l h1 @ [Bin op x y]"
  unfolding calls_def[of _ _ "bin_t op l r"] eval.simps recorded_eval assms
  by (simp add: recorded_eval assms)

text \<open>
  Claim C8, as the code has it. For a call node with an argument list, the
  arguments are evaluated from left to right, each in the state the one before left,
  and the single \<^verbatim>\<open>fcall\<close> comes after all of their calls. For a binary node both
  operands are evaluated, one after the other, before the single \<^verbatim>\<open>bin\<close> call, which
  gets the value of the left operand first; which operand is evaluated first is the
  order the compiler takes for the arguments of the call. \<^verbatim>\<open>f(a, b)\<close> gives the calls
  \<^verbatim>\<open>load(a)\<close>, \<^verbatim>\<open>load(b)\<close>, \<^verbatim>\<open>fcall("f", 2, [ref_a, ref_b])\<close> under every contract.
\<close>

theorem evaluation_order:
  "(eval ord ct (call_t f (Some args)) h = Returns (z, h') \<longrightarrow>
      (\<exists>list h1. list_eval ord ct args h = Returns (list, h1) \<and>
         fcall ct f (length args) list h1 = (z, h') \<and>
         calls ord ct (call_t f (Some args)) h =
           list_calls ord ct args h @ [Fcall f (length args) list])) \<and>
   (list_eval ord ct (a # as) h = Returns (xs, h'') \<longrightarrow>
      (\<exists>x h1 rest. eval ord ct a h = Returns (x, h1) \<and>
         list_eval ord ct as h1 = Returns (rest, h'') \<and> xs = x # rest \<and>
         list_calls ord ct (a # as) h = calls ord ct a h @ list_calls ord ct as h1)) \<and>
   (eval Left_first ct (bin_t op l r) h = Returns (z, h') \<longrightarrow>
      (\<exists>x h1 y h2. eval Left_first ct l h = Returns (x, h1) \<and>
         eval Left_first ct r h1 = Returns (y, h2) \<and> bin ct op x y h2 = (z, h') \<and>
         calls Left_first ct (bin_t op l r) h =
           calls Left_first ct l h @ calls Left_first ct r h1 @ [Bin op x y])) \<and>
   (eval Right_first ct (bin_t op l r) h = Returns (z, h') \<longrightarrow>
      (\<exists>y h1 x h2. eval Right_first ct r h = Returns (y, h1) \<and>
         eval Right_first ct l h1 = Returns (x, h2) \<and> bin ct op x y h2 = (z, h') \<and>
         calls Right_first ct (bin_t op l r) h =
           calls Right_first ct r h @ calls Right_first ct l h1 @ [Bin op x y])) \<and>
   and_then (tokenize ''f(a, b)'') treeify =
     Returns (Some (call_t ''f'' (Some [var_t ''a'', var_t ''b'']))) \<and>
   calls ord ct (call_t ''f'' (Some [var_t ''a'', var_t ''b''])) h =
     [Load ''a'', Load ''b'',
      Fcall ''f'' 2 [fst (load ct ''a'' h), fst (load ct ''b'' (snd (load ct ''a'' h)))]]"
proof (intro conjI impI)
  assume "eval ord ct (call_t f (Some args)) h = Returns (z, h')"
  then obtain list h1 where 1: "list_eval ord ct args h = Returns (list, h1)"
    and 2: "fcall ct f (length args) list h1 = (z, h')"
    by (auto simp: and_then_Returns)
  show "\<exists>list h1. list_eval ord ct args h = Returns (list, h1) \<and>
         fcall ct f (length args) list h1 = (z, h') \<and>
         calls ord ct (call_t f (Some args)) h =
           list_calls ord ct args h @ [Fcall f (length args) list]"
    using 1 2 calls_call_t[OF 1] by blast
next
  assume "list_eval ord ct (a # as) h = Returns (xs, h'')"
  then obtain x h1 rest where 1: "eval ord ct a h = Returns (x, h1)"
    and 2: "list_eval ord ct as h1 = Returns (rest, h'')" and 3: "xs = x # rest"
    by (auto simp: and_then_Returns)
  show "\<exists>x h1 rest. eval ord ct a h = Returns (x, h1) \<and>
         list_eval ord ct as h1 = Returns (rest, h'') \<and> xs = x # rest \<and>
         list_calls ord ct (a # as) h = calls ord ct a h @ list_calls ord ct as h1"
    using 1 2 3 list_calls_Cons[OF 1 2] by blast
next
  assume "eval Left_first ct (bin_t op l r) h = Returns (z, h')"
  then obtain x h1 y h2 where 1: "eval Left_first ct l h = Returns (x, h1)"
    and 2: "eval Left_first ct r h1 = Returns (y, h2)" and 3: "bin ct op x y h2 = (z, h')"
    by (auto simp: and_then_Returns)
  show "\<exists>x h1 y h2. eval Left_first ct l h = Returns (x, h1) \<and>
         eval Left_first ct r h1 = Returns (y, h2) \<and> bin ct op x y h2 = (z, h') \<and>
         calls Left_first ct (bin_t op l r) h =
           calls Left_first ct l h @ calls Left_first ct r h1 @ [Bin op x y]"
    using 1 2 3 calls_bin_left[OF 1 2] by blast
next
  assume "eval Right_first ct (bin_t op l r) h = Returns (z, h')"
  then obtain y h1 x h2 where 1: "eval Right_first ct r h = Returns (y, h1)"
    and 2: "eval Right_first ct l h1 = Returns (x, h2)" and 3: "bin ct op x y h2 = (z, h')"
    by (auto simp: and_then_Returns)
  show "\<exists>y h1 x h2. eval Right_first ct r h = Returns (y, h1) \<and>
         eval Right_first ct l h1 = Returns (x, h2) \<and> bin ct op x y h2 = (z, h') \<and>
         calls Right_first ct (bin_t op l r) h =
           calls Right_first ct r h @ calls Right_first ct l h1 @ [Bin op x y]"
    using 1 2 3 calls_bin_right[OF 1 2] by blast
next
  show "and_then (tokenize ''f(a, b)'') treeify =
     Returns (Some (call_t ''f'' (Some [var_t ''a'', var_t ''b''])))"
    by code_simp
next
  show "calls ord ct (call_t ''f'' (Some [var_t ''a'', var_t ''b''])) h =
     [Load ''a'', Load ''b'',
      Fcall ''f'' 2 [fst (load ct ''a'' h), fst (load ct ''b'' (snd (load ct ''a'' h)))]]"
    by (simp add: calls_def)
qed

text \<open>The theorem at \<^verbatim>\<open>f(a, b)\<close> and \<^verbatim>\<open>a - b\<close> under the counting host.\<close>

theorem evaluation_order_witness:
  "eval Left_first counting_table (call_t ''f'' (Some [var_t ''a'', var_t ''b''])) 0 = Returns (2, 3) \<and>
   list_eval Left_first counting_table [var_t ''a'', var_t ''b''] 0 = Returns ([5, 3], 2) \<and>
   eval Left_first counting_table (bin_t tok_minus (var_t ''a'') (var_t ''b'')) 0 = Returns (2, 3) \<and>
   eval Right_first counting_table (bin_t tok_minus (var_t ''a'') (var_t ''b'')) 0 = Returns (2, 3) \<and>
   (\<exists>list h1. list_eval Left_first counting_table [var_t ''a'', var_t ''b''] 0 = Returns (list, h1) \<and>
      fcall counting_table ''f'' (length [var_t ''a'', var_t ''b'']) list h1 = (2, 3) \<and>
      calls Left_first counting_table (call_t ''f'' (Some [var_t ''a'', var_t ''b''])) 0 =
        list_calls Left_first counting_table [var_t ''a'', var_t ''b''] 0 @
        [Fcall ''f'' (length [var_t ''a'', var_t ''b'']) list]) \<and>
   (\<exists>x h1 rest. eval Left_first counting_table (var_t ''a'') 0 = Returns (x, h1) \<and>
      list_eval Left_first counting_table [var_t ''b''] h1 = Returns (rest, 2) \<and> [5, 3] = x # rest \<and>
      list_calls Left_first counting_table [var_t ''a'', var_t ''b''] 0 =
        calls Left_first counting_table (var_t ''a'') 0 @
        list_calls Left_first counting_table [var_t ''b''] h1) \<and>
   (\<exists>x h1 y h2. eval Left_first counting_table (var_t ''a'') 0 = Returns (x, h1) \<and>
      eval Left_first counting_table (var_t ''b'') h1 = Returns (y, h2) \<and>
      bin counting_table tok_minus x y h2 = (2, 3) \<and>
      calls Left_first counting_table (bin_t tok_minus (var_t ''a'') (var_t ''b'')) 0 =
        calls Left_first counting_table (var_t ''a'') 0 @
        calls Left_first counting_table (var_t ''b'') h1 @ [Bin tok_minus x y]) \<and>
   (\<exists>y h1 x h2. eval Right_first counting_table (var_t ''b'') 0 = Returns (y, h1) \<and>
      eval Right_first counting_table (var_t ''a'') h1 = Returns (x, h2) \<and>
      bin counting_table tok_minus x y h2 = (2, 3) \<and>
      calls Right_first counting_table (bin_t tok_minus (var_t ''a'') (var_t ''b'')) 0 =
        calls Right_first counting_table (var_t ''b'') 0 @
        calls Right_first counting_table (var_t ''a'') h1 @ [Bin tok_minus x y])"
proof -
  have 1: "eval Left_first counting_table (call_t ''f'' (Some [var_t ''a'', var_t ''b''])) 0 = Returns (2, 3)"
    by (simp add: counting_table_def numeral_3_eq_3)
  have 2: "list_eval Left_first counting_table [var_t ''a'', var_t ''b''] 0 = Returns ([5, 3], 2)"
    by (simp add: counting_table_def numeral_2_eq_2)
  have 3: "eval Left_first counting_table (bin_t tok_minus (var_t ''a'') (var_t ''b'')) 0 = Returns (2, 3)"
    by (simp add: counting_table_def numeral_3_eq_3)
  have 4: "eval Right_first counting_table (bin_t tok_minus (var_t ''a'') (var_t ''b'')) 0 = Returns (2, 3)"
    by (simp add: counting_table_def numeral_3_eq_3)
  show ?thesis
    using 1 2 3 4
      evaluation_order[of Left_first counting_table "''f''" "[var_t ''a'', var_t ''b'']" 0 2 3
        "var_t ''a''" "[var_t ''b'']" "[5, 3]" 2 tok_minus "var_t ''a''" "var_t ''b''"]
    by blast
qed

text \<open>
  Claim C8 as stated fails for the binary node: where the compiler evaluates the
  arguments of a call from right to left, \<^verbatim>\<open>a-b\<close> loads \<open>b\<close> before \<open>a\<close>.
\<close>

theorem operand_order_counterexample:
  "and_then (tokenize ''a-b'') treeify = Returns (Some (bin_t tok_minus (var_t ''a'') (var_t ''b''))) \<and>
   eval Right_first (recording counting_table) (bin_t tok_minus (var_t ''a'') (var_t ''b'')) (0, []) =
     Returns (2, 3, [Load ''b'', Load ''a'', Bin tok_minus 5 3])"
proof
  show "and_then (tokenize ''a-b'') treeify = Returns (Some (bin_t tok_minus (var_t ''a'') (var_t ''b'')))"
    by code_simp
  show "eval Right_first (recording counting_table) (bin_t tok_minus (var_t ''a'') (var_t ''b'')) (0, []) =
     Returns (2, 3, [Load ''b'', Load ''a'', Bin tok_minus 5 3])"
    by (simp add: counting_table_def numeral_3_eq_3)
qed

text \<open>
  Claim C1. \<^verbatim>\<open>a-b-c\<close> is parsed to \<open>bin(minus, a, bin(minus, b, c))\<close>, and under every
  contract that loads 5, 3 and 1 for \<open>a\<close>, \<open>b\<close> and \<open>c\<close> and whose \<^verbatim>\<open>bin\<close> subtracts
  for \<open>tok_minus\<close>, the evaluation of this tree returns \<open>5 - (3 - 1) = 3\<close>, whichever
  operand order the compiler takes.
\<close>

theorem right_associative:
  assumes "\<And>h. fst (load ct ''a'' h) = 5" and "\<And>h. fst (load ct ''b'' h) = 3"
    and "\<And>h. fst (load ct ''c'' h) = 1"
    and "\<And>x y h. fst (bin ct tok_minus x y h) = x - y"
  shows "and_then (tokenize ''a-b-c'') treeify =
           Returns (Some (bin_t tok_minus (var_t ''a'')
                            (bin_t tok_minus (var_t ''b'') (var_t ''c'')))) \<and>
         (\<exists>h'. eval ord ct (bin_t tok_minus (var_t ''a'')
                              (bin_t tok_minus (var_t ''b'') (var_t ''c''))) h = Returns (3, h'))"
proof
  show "and_then (tokenize ''a-b-c'') treeify =
           Returns (Some (bin_t tok_minus (var_t ''a'')
                            (bin_t tok_minus (var_t ''b'') (var_t ''c''))))"
    by code_simp
  have la: "load ct ''a'' h = (5, snd (load ct ''a'' h))" for h
    using assms(1)[of h] by (cases "load ct ''a'' h") simp
  have lb: "load ct ''b'' h = (3, snd (load ct ''b'' h))" for h
    using assms(2)[of h] by (cases "load ct ''b'' h") simp
  have lc: "load ct ''c'' h = (1, snd (load ct ''c'' h))" for h
    using assms(3)[of h] by (cases "load ct ''c'' h") simp
  have bm: "bin ct tok_minus x y h = (x - y, snd (bin ct tok_minus x y h))" for x y h
    using assms(4)[of x y h] by (cases "bin ct tok_minus x y h") simp
  show "\<exists>h'. eval ord ct (bin_t tok_minus (var_t ''a'')
                              (bin_t tok_minus (var_t ''b'') (var_t ''c''))) h = Returns (3, h')"
  proof (cases ord)
    case Left_first
    have "eval Left_first ct (bin_t tok_minus (var_t ''a'')
            (bin_t tok_minus (var_t ''b'') (var_t ''c''))) h =
          Returns (5 - (3 - 1), snd (bin ct tok_minus 5 (3 - 1)
             (snd (bin ct tok_minus 3 1
                (snd (load ct ''c'' (snd (load ct ''b'' (snd (load ct ''a'' h))))))))))"
      apply simp
      apply (subst la, simp, subst lb, simp, subst lc, simp, subst bm, simp, subst bm, simp)
      done
    then show ?thesis unfolding Left_first by simp
  next
    case Right_first
    have "eval Right_first ct (bin_t tok_minus (var_t ''a'')
            (bin_t tok_minus (var_t ''b'') (var_t ''c''))) h =
          Returns (5 - (3 - 1), snd (bin ct tok_minus 5 (3 - 1)
             (snd (load ct ''a'' (snd (bin ct tok_minus 3 1
                (snd (load ct ''b'' (snd (load ct ''c'' h))))))))))"
      apply simp
      apply (subst lc, simp, subst lb, simp, subst bm, simp, subst la, simp, subst bm, simp)
      done
    then show ?thesis unfolding Right_first by simp
  qed
qed

text \<open>The theorem under the counting host.\<close>

theorem right_associative_witness:
  "(\<forall>h. fst (load counting_table ''a'' h) = 5) \<and> (\<forall>h. fst (load counting_table ''b'' h) = 3) \<and>
   (\<forall>h. fst (load counting_table ''c'' h) = 1) \<and>
   (\<forall>x y h. fst (bin counting_table tok_minus x y h) = x - y) \<and>
   and_then (tokenize ''a-b-c'') treeify =
     Returns (Some (bin_t tok_minus (var_t ''a'') (bin_t tok_minus (var_t ''b'') (var_t ''c'')))) \<and>
   (\<exists>h'. eval Left_first counting_table
            (bin_t tok_minus (var_t ''a'') (bin_t tok_minus (var_t ''b'') (var_t ''c''))) 0 =
          Returns (3, h'))"
proof -
  have a: "\<And>h. fst (load counting_table ''a'' h) = 5" by (simp add: counting_table_def)
  have b: "\<And>h. fst (load counting_table ''b'' h) = 3" by (simp add: counting_table_def)
  have c: "\<And>h. fst (load counting_table ''c'' h) = 1" by (simp add: counting_table_def)
  have m: "\<And>x y h. fst (bin counting_table tok_minus x y h) = x - y"
    by (simp add: counting_table_def)
  show ?thesis using a b c m right_associative[OF a b c m, of Left_first 0] by blast
qed

end
